theory Spec2Isabelle
  imports Main "HOL-Library.Product_Lexorder" "HOL-Library.Word"
begin

unbundle bit_operations_syntax

section \<open>Component registry (runtime/component.js, registerComponent)\<close>

text \<open>
  A component constructor, as far as \<open>registerComponent\<close> looks at it: the static
  \<open>tag\<close> field (absent, or a string), whether the constructor derives from
  \<open>HTMLElement\<close>, and the \<open>FINALIZED\<close> marker that \<open>finalize\<close> sets. The
  normalisation of the props options inside \<open>finalize\<close> does not touch the registry
  and is left out.
\<close>

record component =
  comp_name :: nat
  tag :: "string option"
  isHTMLElement :: bool
  finalized :: bool

text \<open>
  The module state: the \<open>componentRegister\<close> map, the tags handed to
  \<open>customElements.define\<close>, and the lines written with \<open>console.error\<close>.
\<close>

record registry =
  componentRegister :: "string \<rightharpoonup> component"
  customElements :: "string list"
  console :: "string list"

datatype js_error = TypeError | Error string

definition finalize :: "component \<Rightarrow> component" where
  "finalize c = (if finalized c then c else c\<lparr>finalized := True\<rparr>)"

text \<open>
  \<open>registerComponent\<close>: a result \<open>Inl e\<close> stands for a thrown exception. The branches are
  those of the source: a falsy tag (undefined or the empty string), a tag without a hyphen,
  a tag that is not registered yet; a tag that is registered already falls through.
\<close>

definition registerComponent :: "component \<Rightarrow> registry \<Rightarrow> js_error + registry" where
  "registerComponent c r =
     (case tag c of
        None \<Rightarrow> Inr (r\<lparr>console := console r @ [''Missing static tag field in component'']\<rparr>)
      | Some t \<Rightarrow>
          if t = [] then
            Inr (r\<lparr>console := console r @ [''Missing static tag field in component'']\<rparr>)
          else if CHR ''-'' \<notin> set t then
            Inr (r\<lparr>console := console r @ [''Missing - in component tag '' @ t]\<rparr>)
          else if componentRegister r t = None then
            Inr (r\<lparr>componentRegister := (componentRegister r)(t \<mapsto> finalize c),
                   customElements :=
                     (if isHTMLElement c then customElements r @ [t] else customElements r)\<rparr>)
          else Inr r)"

definition lacks_hyphen :: "component \<Rightarrow> bool" where
  "lacks_hyphen c = (case tag c of None \<Rightarrow> True | Some t \<Rightarrow> CHR ''-'' \<notin> set t)"

definition empty_registry :: registry where
  "empty_registry = \<lparr>componentRegister = Map.empty, customElements = [], console = []\<rparr>"

definition comp_foo :: component where
  "comp_foo = \<lparr>comp_name = 0, tag = Some ''foo'', isHTMLElement = True, finalized = False\<rparr>"

text \<open>
  C9, as the specification states it, fails: registering a component whose tag has no
  hyphen does not throw. For the tag \<open>foo\<close> the call returns normally.
\<close>

theorem registerComponent_no_throw_counterexample:
  "lacks_hyphen comp_foo \<and> \<not> (\<exists>e. registerComponent comp_foo empty_registry = Inl e)"
  by (simp add: lacks_hyphen_def comp_foo_def registerComponent_def empty_registry_def)

text \<open>
  C9, amended: registering a component whose static tag is missing or lacks a hyphen
  returns normally (nothing is thrown), writes one line with \<open>console.error\<close>, and leaves
  the registry and the custom element definitions unchanged.
\<close>

theorem registerComponent_rejects_by_logging:
  assumes "lacks_hyphen c"
  shows "\<exists>r'. registerComponent c r = Inr r' \<and>
           componentRegister r' = componentRegister r \<and>
           customElements r' = customElements r \<and>
           length (console r') = Suc (length (console r))"
proof (cases "tag c")
  case None
  then show ?thesis by (simp add: registerComponent_def)
next
  case (Some t)
  with assms have "CHR ''-'' \<notin> set t" by (simp add: lacks_hyphen_def)
  with Some show ?thesis by (simp add: registerComponent_def)
qed

theorem registerComponent_rejects_by_logging_witness:
  "lacks_hyphen comp_foo \<and>
   registerComponent comp_foo empty_registry =
     Inr (empty_registry\<lparr>console := [''Missing - in component tag foo'']\<rparr>)"
proof -
  have h: "lacks_hyphen comp_foo" by (simp add: lacks_hyphen_def comp_foo_def)
  from registerComponent_rejects_by_logging [OF h, of empty_registry]
  show ?thesis using h
    by (simp add: comp_foo_def registerComponent_def empty_registry_def)
qed

section \<open>Scheduler (packages/runtime/src/scheduler.js)\<close>

text \<open>
  Jobs are function objects. A job is addressed by its identity (a number); what the
  scheduler reads of it (\<open>id\<close>, \<open>active\<close>, \<open>allowRecurse\<close>) and what calling it does to
  the scheduler (the calls of the scheduler's interface it makes, in order) are looked up
  in an environment.
\<close>

type_synonym job = nat

datatype callbacks = Single job | Many "job list"

datatype sched_call =
    QueueJob job
  | QueuePreFlushCallback job
  | QueuePostFlushCallback callbacks
  | InvalidateJob job

record job_info =
  job_id :: "int option"
  job_active :: bool
  job_allowRecurse :: bool
  job_body :: "sched_call list"

type_synonym job_env = "job \<Rightarrow> job_info"

text \<open>What the scheduler called, in order: a job of the main queue, or a callback of the
  pre-flush or of the post-flush loop.\<close>

datatype event = RunJob job | RunPre job | RunPost job

record scheduler =
  isFlushing :: bool
  isFlushPending :: bool
  queue :: "job list"
  flushIndex :: nat
  pendingPreFlushCallbacks :: "job list"
  activePreFlushCallbacks :: "job list option"
  preFlushIndex :: nat
  pendingPostFlushCallbacks :: "job list"
  activePostFlushCallbacks :: "job list option"
  postFlushIndex :: nat
  currentPreFlushParentJob :: "job option"
  executed :: "event list"

definition idle :: scheduler where
  "idle = \<lparr>isFlushing = False, isFlushPending = False, queue = [], flushIndex = 0,
     pendingPreFlushCallbacks = [], activePreFlushCallbacks = None, preFlushIndex = 0,
     pendingPostFlushCallbacks = [], activePostFlushCallbacks = None, postFlushIndex = 0,
     currentPreFlushParentJob = None, executed = []\<rparr>"

text \<open>
  \<open>getId\<close>: the id of a job, \<open>Infinity\<close> when it has none. The pair orders lexicographically,
  so that every job without an id comes after every job with one.
\<close>

definition getId :: "job_env \<Rightarrow> job \<Rightarrow> bool \<times> int" where
  "getId env j = (case job_id (env j) of None \<Rightarrow> (True, 0) | Some i \<Rightarrow> (False, i))"

text \<open>The binary search of \<open>findInsertionIndex\<close>, from \<open>start\<close> to \<open>end\<close>.\<close>

function findInsertionIndex_loop :: "job_env \<Rightarrow> job list \<Rightarrow> int \<Rightarrow> nat \<Rightarrow> nat \<Rightarrow> nat" where
  "findInsertionIndex_loop env q i start end' =
     (if start < end' then
        (let middle = (start + end') div 2 in
         if getId env (q ! middle) < (False, i)
         then findInsertionIndex_loop env q i (middle + 1) end'
         else findInsertionIndex_loop env q i start middle)
      else start)"
  by pat_completeness auto
termination
  by (relation "measure (\<lambda>(env, q, i, start, end'). end' - start)") auto

declare findInsertionIndex_loop.simps [simp del]

definition findInsertionIndex :: "job_env \<Rightarrow> scheduler \<Rightarrow> int \<Rightarrow> nat" where
  "findInsertionIndex env s i =
     findInsertionIndex_loop env (queue s) i (flushIndex s + 1) (length (queue s))"

definition queueFlush :: "scheduler \<Rightarrow> scheduler" where
  "queueFlush s =
     (if \<not> isFlushing s \<and> \<not> isFlushPending s then s\<lparr>isFlushPending := True\<rparr> else s)"

text \<open>
  \<open>arr.includes(x, from)\<close>, \<open>arr.splice(i, 0, x)\<close>, and \<open>[...new Set(arr)]\<close>, which
  keeps the first occurrence of every element, in order.
\<close>

definition set_spread :: "'a list \<Rightarrow> 'a list" where
  "set_spread xs = rev (remdups (rev xs))"

definition includes_from :: "'a list \<Rightarrow> 'a \<Rightarrow> nat \<Rightarrow> bool" where
  "includes_from xs x from = (x \<in> set (drop from xs))"

definition splice_in :: "'a list \<Rightarrow> nat \<Rightarrow> 'a \<Rightarrow> 'a list" where
  "splice_in xs i x = take i xs @ x # drop i xs"

definition queueJob :: "job_env \<Rightarrow> job \<Rightarrow> scheduler \<Rightarrow> scheduler" where
  "queueJob env j s =
     (if (queue s = [] \<or>
          \<not> includes_from (queue s) j
              (if isFlushing s \<and> job_allowRecurse (env j) then flushIndex s + 1 else flushIndex s))
         \<and> Some j \<noteq> currentPreFlushParentJob s
      then
        queueFlush
          (case job_id (env j) of
             None \<Rightarrow> s\<lparr>queue := queue s @ [j]\<rparr>
           | Some i \<Rightarrow> s\<lparr>queue := splice_in (queue s) (findInsertionIndex env s i) j\<rparr>)
      else s)"

definition invalidateJob :: "job \<Rightarrow> scheduler \<Rightarrow> scheduler" where
  "invalidateJob j s =
     (if j \<in> set (queue s) then
        (let idx = length (takeWhile (\<lambda>x. x \<noteq> j) (queue s)) in
         if idx > flushIndex s
         then s\<lparr>queue := take idx (queue s) @ drop (idx + 1) (queue s)\<rparr> else s)
      else s)"

text \<open>
  \<open>queueCallback\<close> pushes onto the pending queue it is given and returns that queue; the
  two callers below say which pending queue that is.
\<close>

definition queueCallback ::
  "job_env \<Rightarrow> callbacks \<Rightarrow> job list option \<Rightarrow> job list \<Rightarrow> nat \<Rightarrow> job list" where
  "queueCallback env cb activeQueue pendingQueue index =
     (case cb of
        Single c \<Rightarrow>
          (case activeQueue of
             None \<Rightarrow> pendingQueue @ [c]
           | Some a \<Rightarrow>
               if \<not> includes_from a c (if job_allowRecurse (env c) then index + 1 else index)
               then pendingQueue @ [c] else pendingQueue)
      | Many cs \<Rightarrow> pendingQueue @ cs)"

definition queuePreFlushCallback :: "job_env \<Rightarrow> job \<Rightarrow> scheduler \<Rightarrow> scheduler" where
  "queuePreFlushCallback env cb s =
     queueFlush (s\<lparr>pendingPostFlushCallbacks :=
       queueCallback env (Single cb) (activePreFlushCallbacks s)
         (pendingPostFlushCallbacks s) (preFlushIndex s)\<rparr>)"

definition queuePostFlushCallback :: "job_env \<Rightarrow> callbacks \<Rightarrow> scheduler \<Rightarrow> scheduler" where
  "queuePostFlushCallback env cb s =
     queueFlush (s\<lparr>pendingPostFlushCallbacks :=
       queueCallback env cb (activePostFlushCallbacks s)
         (pendingPostFlushCallbacks s) (postFlushIndex s)\<rparr>)"

text \<open>Calling a job: it is recorded as executed, then its body runs.\<close>

fun do_call :: "job_env \<Rightarrow> scheduler \<Rightarrow> sched_call \<Rightarrow> scheduler" where
  "do_call env s (QueueJob j) = queueJob env j s"
| "do_call env s (QueuePreFlushCallback j) = queuePreFlushCallback env j s"
| "do_call env s (QueuePostFlushCallback cb) = queuePostFlushCallback env cb s"
| "do_call env s (InvalidateJob j) = invalidateJob j s"

definition call_job :: "job_env \<Rightarrow> event \<Rightarrow> job \<Rightarrow> scheduler \<Rightarrow> scheduler" where
  "call_job env ev j s = foldl (do_call env) (s\<lparr>executed := executed s @ [ev]\<rparr>) (job_body (env j))"

text \<open>
  \<open>flushPreFlushCallbacks\<close>: the active list is a snapshot, so the inner loop is a loop
  over its indices; the function calls itself until nothing is pending, which a callback
  that keeps enqueuing can prevent: the recursion is bounded by fuel, and \<open>None\<close> is a
  run that has not returned within it.
\<close>

fun flushPreFlushCallbacks :: "job_env \<Rightarrow> nat \<Rightarrow> job option \<Rightarrow> scheduler \<Rightarrow> scheduler option" where
  "flushPreFlushCallbacks env 0 parentJob s = None"
| "flushPreFlushCallbacks env (Suc n) parentJob s =
     (if pendingPreFlushCallbacks s \<noteq> [] then
        (let a = set_spread (pendingPreFlushCallbacks s);
             s1 = s\<lparr>currentPreFlushParentJob := parentJob,
                    activePreFlushCallbacks := Some a,
                    pendingPreFlushCallbacks := []\<rparr>;
             s2 = foldl (\<lambda>t k. call_job env (RunPre (a ! k)) (a ! k) (t\<lparr>preFlushIndex := k\<rparr>)) s1 [0..<length a];
             s3 = s2\<lparr>activePreFlushCallbacks := None, preFlushIndex := 0,
                     currentPreFlushParentJob := None\<rparr>
         in flushPreFlushCallbacks env n parentJob s3)
      else Some s)"


text \<open>
  \<open>flushPostFlushCallbacks\<close>. When a post flush is running already the new callbacks
  are appended to the running list; otherwise they are sorted by id and called in turn.
\<close>

definition flushPostFlushCallbacks :: "job_env \<Rightarrow> scheduler \<Rightarrow> scheduler" where
  "flushPostFlushCallbacks env s =
     (if pendingPostFlushCallbacks s \<noteq> [] then
        (let deduped = set_spread (pendingPostFlushCallbacks s);
             s1 = s\<lparr>pendingPostFlushCallbacks := []\<rparr>
         in case activePostFlushCallbacks s1 of
              Some a \<Rightarrow> s1\<lparr>activePostFlushCallbacks := Some (a @ deduped)\<rparr>
            | None \<Rightarrow>
               (let a = sort_key (getId env) deduped;
                    s2 = s1\<lparr>activePostFlushCallbacks := Some a\<rparr>;
                    s3 = foldl (\<lambda>t k. call_job env (RunPost (a ! k)) (a ! k) (t\<lparr>postFlushIndex := k\<rparr>))
                           s2 [0..<length a]
                in s3\<lparr>activePostFlushCallbacks := None, postFlushIndex := 0\<rparr>))
      else s)"

text \<open>
  The loop of \<open>flushJobs\<close> over the queue. A job may enqueue further jobs while it
  runs, so the loop need not end: it is bounded by fuel.
\<close>

fun run_queue :: "job_env \<Rightarrow> nat \<Rightarrow> scheduler \<Rightarrow> scheduler option" where
  "run_queue env 0 s = None"
| "run_queue env (Suc n) s =
     (if flushIndex s < length (queue s) then
        (let j = queue s ! flushIndex s;
             s1 = (if job_active (env j) then call_job env (RunJob j) j s else s)
         in run_queue env n (s1\<lparr>flushIndex := flushIndex s1 + 1\<rparr>))
      else Some s)"

text \<open>
  \<open>flushJobs\<close>, in two parts: the pass itself (the pre-flush callbacks, the sort of the
  queue by id, the loop over the queue), and the \<open>finally\<close> block, which resets the
  queue, runs the post-flush callbacks and starts over when there is new work.
\<close>

definition flush_pass :: "job_env \<Rightarrow> nat \<Rightarrow> scheduler \<Rightarrow> scheduler option" where
  "flush_pass env n s =
     (case flushPreFlushCallbacks env n None (s\<lparr>isFlushPending := False, isFlushing := True\<rparr>) of
        None \<Rightarrow> None
      | Some s1 \<Rightarrow>
          run_queue env n (s1\<lparr>queue := sort_key (getId env) (queue s1), flushIndex := 0\<rparr>))"

fun flushJobs :: "job_env \<Rightarrow> nat \<Rightarrow> scheduler \<Rightarrow> scheduler option" where
  "flushJobs env 0 s = None"
| "flushJobs env (Suc n) s =
     (case flush_pass env n s of
        None \<Rightarrow> None
      | Some s2 \<Rightarrow>
         (let s3 = flushPostFlushCallbacks env (s2\<lparr>flushIndex := 0, queue := []\<rparr>);
              s4 = s3\<lparr>isFlushing := False\<rparr>
          in if queue s4 \<noteq> [] \<or> pendingPreFlushCallbacks s4 \<noteq> [] \<or>
                pendingPostFlushCallbacks s4 \<noteq> []
             then flushJobs env n s4 else Some s4))"

text \<open>The main-queue jobs among the calls, in the order they ran.\<close>

fun jobs_run :: "event list \<Rightarrow> job list" where
  "jobs_run [] = []"
| "jobs_run (RunJob j # es) = j # jobs_run es"
| "jobs_run (_ # es) = jobs_run es"

lemma getId_top: "getId env j \<le> (True, 0)"
  by (simp add: getId_def less_eq_prod_def split: option.split)

lemma jobs_run_append: "jobs_run (xs @ ys) = jobs_run xs @ jobs_run ys"
  by (induction xs rule: jobs_run.induct) simp_all

lemma findInsertionIndex_loop_spec:
  assumes "lo \<le> start" "start \<le> end'" "end' \<le> length q"
    and "sorted (map (getId env) (drop lo q))"
    and "\<forall>k. lo \<le> k \<and> k < start \<longrightarrow> getId env (q ! k) < (False, i)"
    and "\<forall>k. end' \<le> k \<and> k < length q \<longrightarrow> \<not> getId env (q ! k) < (False, i)"
  shows "lo \<le> findInsertionIndex_loop env q i start end' \<and>
         findInsertionIndex_loop env q i start end' \<le> length q \<and>
         (\<forall>k. lo \<le> k \<and> k < findInsertionIndex_loop env q i start end'
               \<longrightarrow> getId env (q ! k) < (False, i)) \<and>
         (\<forall>k. findInsertionIndex_loop env q i start end' \<le> k \<and> k < length q
               \<longrightarrow> \<not> getId env (q ! k) < (False, i))"
  using assms
proof (induction env q i start end' rule: findInsertionIndex_loop.induct)
  case (1 env q i start end')
  show ?case
  proof (cases "start < end'")
    case False
    with "1.prems" have "start = end'" by simp
    moreover have "findInsertionIndex_loop env q i start end' = start"
      using False by (subst findInsertionIndex_loop.simps) simp
    ultimately show ?thesis using "1.prems" by auto
  next
    case True
    define middle where "middle = (start + end') div 2"
    have m: "start \<le> middle" "middle < end'" using True by (simp_all add: middle_def)
    have mono: "getId env (q ! a) \<le> getId env (q ! b)" if "lo \<le> a" "a \<le> b" "b < length q" for a b
    proof -
      have "map (getId env) (drop lo q) ! (a - lo) \<le> map (getId env) (drop lo q) ! (b - lo)"
        using "1.prems"(4) that by (intro sorted_nth_mono) auto
      with that show ?thesis by simp
    qed
    show ?thesis
    proof (cases "getId env (q ! middle) < (False, i)")
      case lt: True
      have below: "\<forall>k. lo \<le> k \<and> k < middle + 1 \<longrightarrow> getId env (q ! k) < (False, i)"
      proof (intro allI impI)
        fix k assume "lo \<le> k \<and> k < middle + 1"
        then have "getId env (q ! k) \<le> getId env (q ! middle)"
          using m "1.prems"(3) by (intro mono) auto
        with lt show "getId env (q ! k) < (False, i)" by simp
      qed
      have "findInsertionIndex_loop env q i start end' =
            findInsertionIndex_loop env q i (middle + 1) end'"
        using True lt by (subst findInsertionIndex_loop.simps) (simp add: middle_def Let_def)
      moreover have "lo \<le> middle + 1" "middle + 1 \<le> end'"
        using m "1.prems"(1) by simp_all
      ultimately show ?thesis
        using "1.IH"(1) [OF True refl, folded middle_def, OF lt]
          "1.prems" below by simp
    next
      case ge: False
      have above: "\<forall>k. middle \<le> k \<and> k < length q \<longrightarrow> \<not> getId env (q ! k) < (False, i)"
      proof (intro allI impI)
        fix k assume k: "middle \<le> k \<and> k < length q"
        then have "getId env (q ! middle) \<le> getId env (q ! k)"
          using m "1.prems"(1,2) by (intro mono) auto
        with ge show "\<not> getId env (q ! k) < (False, i)" by auto
      qed
      have "findInsertionIndex_loop env q i start end' =
            findInsertionIndex_loop env q i start middle"
        using True ge by (subst findInsertionIndex_loop.simps) (simp add: middle_def Let_def)
      moreover have "middle \<le> length q" using m "1.prems"(3) by simp
      ultimately show ?thesis
        using "1.IH"(2) [OF True refl, folded middle_def, OF ge]
          "1.prems" above m by simp
    qed
  qed
qed


text \<open>The part of the queue behind the cursor.\<close>

definition queue_rest :: "scheduler \<Rightarrow> job list" where
  "queue_rest s = drop (Suc (flushIndex s)) (queue s)"

definition body_inv :: "job_env \<Rightarrow> nat \<Rightarrow> bool \<times> int \<Rightarrow> event list \<Rightarrow> scheduler \<Rightarrow> bool" where
  "body_inv env fi b ex s \<longleftrightarrow>
     flushIndex s = fi \<and> fi < length (queue s) \<and> executed s = ex \<and>
     sorted (map (getId env) (queue_rest s)) \<and> (\<forall>x \<in> set (queue_rest s). b \<le> getId env x)"

lemma queueFlush_fields [simp]:
  "queue (queueFlush s) = queue s" "flushIndex (queueFlush s) = flushIndex s"
  "executed (queueFlush s) = executed s"
  by (simp_all add: queueFlush_def)

lemma body_inv_queueFlush: "body_inv env fi b ex (queueFlush s) = body_inv env fi b ex s"
  by (simp add: body_inv_def queue_rest_def)

lemma sorted_insert_at:
  fixes f :: "'a \<Rightarrow> 'b::linorder"
  assumes "sorted (map f xs)" "p \<le> length xs"
    and "\<forall>k < p. f (xs ! k) \<le> f x" and "\<forall>k. p \<le> k \<and> k < length xs \<longrightarrow> f x \<le> f (xs ! k)"
  shows "sorted (map f (take p xs @ x # drop p xs))"
proof -
  have 1: "sorted (map f (take p xs))" "sorted (map f (drop p xs))"
    using assms(1) by (simp_all add: sorted_wrt_take sorted_wrt_drop sorted_map)
  have 2: "\<forall>y \<in> set (take p xs). f y \<le> f x"
    using assms(2,3) by (auto simp: in_set_conv_nth)
  have 3: "\<forall>y \<in> set (drop p xs). f x \<le> f y"
    using assms(2,4) by (auto simp: in_set_conv_nth)
  have 4: "\<forall>y \<in> set (take p xs). \<forall>z \<in> set (drop p xs). f y \<le> f z"
    using 2 3 by (meson order_trans)
  show ?thesis using 1 2 3 4 by (auto simp: sorted_append)
qed

lemma queueJob_cases:
  "queueJob env k s = s \<or>
   queueJob env k s = queueFlush
          (case job_id (env k) of
             None \<Rightarrow> s\<lparr>queue := queue s @ [k]\<rparr>
           | Some i \<Rightarrow> s\<lparr>queue := splice_in (queue s) (findInsertionIndex env s i) k\<rparr>)"
  by (simp add: queueJob_def)

lemma body_inv_queueJob:
  assumes "body_inv env fi b ex s" "b \<le> getId env k"
  shows "body_inv env fi b ex (queueJob env k s)"
proof (cases "queueJob env k s = s")
  case True
  with assms show ?thesis by simp
next
  case False
  then have True: "queueJob env k s = queueFlush
          (case job_id (env k) of
             None \<Rightarrow> s\<lparr>queue := queue s @ [k]\<rparr>
           | Some i \<Rightarrow> s\<lparr>queue := splice_in (queue s) (findInsertionIndex env s i) k\<rparr>)"
    using queueJob_cases [of env k s] by blast
  have fi: "flushIndex s = fi" "fi < length (queue s)"
    and srt: "sorted (map (getId env) (queue_rest s))"
    and lb: "\<forall>x \<in> set (queue_rest s). b \<le> getId env x"
    using assms(1) by (simp_all add: body_inv_def)
  show ?thesis
  proof (cases "job_id (env k)")
    case None
    then have q: "queueJob env k s = queueFlush (s\<lparr>queue := queue s @ [k]\<rparr>)"
      using True by simp
    have r: "queue_rest (s\<lparr>queue := queue s @ [k]\<rparr>) = queue_rest s @ [k]"
      using fi by (simp add: queue_rest_def)
    have "getId env k = (True, 0)" using None by (simp add: getId_def)
    then have "\<forall>x \<in> set (queue_rest s). getId env x \<le> getId env k"
      by (simp add: getId_top)
    moreover have "executed s = ex" using assms(1) by (simp add: body_inv_def)
    ultimately have "body_inv env fi b ex (s\<lparr>queue := queue s @ [k]\<rparr>)"
      using srt lb assms(2) fi by (auto simp: body_inv_def r sorted_append)
    then show ?thesis by (simp add: q body_inv_queueFlush)
  next
    case (Some i)
    define p where "p = findInsertionIndex env s i"
    have q: "queueJob env k s = queueFlush (s\<lparr>queue := splice_in (queue s) p k\<rparr>)"
      using True Some by (simp add: p_def)
    have gk: "getId env k = (False, i)" using Some by (simp add: getId_def)
    have spec: "Suc fi \<le> p \<and> p \<le> length (queue s) \<and>
         (\<forall>j. Suc fi \<le> j \<and> j < p \<longrightarrow> getId env (queue s ! j) < (False, i)) \<and>
         (\<forall>j. p \<le> j \<and> j < length (queue s) \<longrightarrow> \<not> getId env (queue s ! j) < (False, i))"
      unfolding p_def findInsertionIndex_def
      using fi srt
      by (intro findInsertionIndex_loop_spec) (auto simp: queue_rest_def)
    have r: "queue_rest (s\<lparr>queue := splice_in (queue s) p k\<rparr>)
             = take (p - Suc fi) (queue_rest s) @ k # drop (p - Suc fi) (queue_rest s)"
      using spec fi by (auto simp: queue_rest_def splice_in_def drop_take)
    have len: "p - Suc fi \<le> length (queue_rest s)" using spec fi by (auto simp: queue_rest_def)
    have "sorted (map (getId env) (take (p - Suc fi) (queue_rest s) @ k # drop (p - Suc fi) (queue_rest s)))"
    proof (rule sorted_insert_at [OF srt len])
      show "\<forall>j<p - Suc fi. getId env (queue_rest s ! j) \<le> getId env k"
        using spec fi gk by (auto simp: queue_rest_def intro!: less_imp_le)
      show "\<forall>j. p - Suc fi \<le> j \<and> j < length (queue_rest s) \<longrightarrow> getId env k \<le> getId env (queue_rest s ! j)"
      proof (intro allI impI)
        fix j assume j: "p - Suc fi \<le> j \<and> j < length (queue_rest s)"
        then have "p \<le> Suc fi + j" "Suc fi + j < length (queue s)"
          using fi by (auto simp: queue_rest_def)
        then have "\<not> getId env (queue s ! (Suc fi + j)) < (False, i)" using spec by blast
        moreover have "queue_rest s ! j = queue s ! (Suc fi + j)" using fi j by (simp add: queue_rest_def)
        ultimately show "getId env k \<le> getId env (queue_rest s ! j)" using gk by (simp add: not_less)
      qed
    qed
    moreover have "\<forall>x \<in> set (take (p - Suc fi) (queue_rest s) @ k # drop (p - Suc fi) (queue_rest s)). b \<le> getId env x"
      using lb assms(2) by (auto dest: in_set_takeD in_set_dropD)
    moreover have "fi < length (splice_in (queue s) p k)"
      using fi by (simp add: splice_in_def)
    moreover have "executed s = ex" using assms(1) by (simp add: body_inv_def)
    ultimately have "body_inv env fi b ex (s\<lparr>queue := splice_in (queue s) p k\<rparr>)"
      using fi by (simp add: body_inv_def r)
    then show ?thesis by (simp add: q body_inv_queueFlush)
  qed
qed


lemma body_inv_queueCallbacks:
  "body_inv env fi b ex (queuePreFlushCallback env c s) = body_inv env fi b ex s"
  "body_inv env fi b ex (queuePostFlushCallback env cb s) = body_inv env fi b ex s"
  by (simp_all add: queuePreFlushCallback_def queuePostFlushCallback_def body_inv_queueFlush)
     (simp_all add: body_inv_def queue_rest_def)

lemma indexOf_less: "j \<in> set q \<Longrightarrow> length (takeWhile (\<lambda>x. x \<noteq> j) q) < length q"
  by (induction q) auto

lemma sorted_remove_at:
  fixes xs :: "'b::linorder list"
  assumes "sorted xs"
  shows "sorted (take n xs @ drop (Suc n) xs)"
proof -
  have "sorted (take n xs @ drop n xs)" using assms by simp
  then have "\<forall>x \<in> set (take n xs). \<forall>y \<in> set (drop n xs). x \<le> y"
    unfolding sorted_append by blast
  moreover have "set (drop (Suc n) xs) \<subseteq> set (drop n xs)"
    by (rule set_drop_subset_set_drop) simp
  ultimately show ?thesis
    using assms by (auto simp: sorted_append sorted_wrt_take sorted_wrt_drop)
qed

lemma body_inv_invalidateJob:
  assumes "body_inv env fi b ex s"
  shows "body_inv env fi b ex (invalidateJob j s)"
proof (cases "invalidateJob j s = s")
  case True
  with assms show ?thesis by simp
next
  case False
  define idx where "idx = length (takeWhile (\<lambda>x. x \<noteq> j) (queue s))"
  have inq: "j \<in> set (queue s)" and gt: "idx > flushIndex s"
    and q: "invalidateJob j s = s\<lparr>queue := take idx (queue s) @ drop (Suc idx) (queue s)\<rparr>"
    using False by (auto simp: invalidateJob_def Let_def idx_def split: if_splits)
  have fi: "flushIndex s = fi" "fi < length (queue s)"
    and srt: "sorted (map (getId env) (queue_rest s))"
    and lb: "\<forall>x \<in> set (queue_rest s). b \<le> getId env x"
    and ex: "executed s = ex"
    using assms(1) by (simp_all add: body_inv_def)
  have idx: "idx < length (queue s)"
    using inq unfolding idx_def by (rule indexOf_less)
  have r: "queue_rest (s\<lparr>queue := take idx (queue s) @ drop (Suc idx) (queue s)\<rparr>)
           = take (idx - Suc fi) (queue_rest s) @ drop (Suc (idx - Suc fi)) (queue_rest s)"
    using gt fi idx by (auto simp: queue_rest_def drop_take)
  have "sorted (map (getId env) (take (idx - Suc fi) (queue_rest s) @ drop (Suc (idx - Suc fi)) (queue_rest s)))"
  proof -
    have "map (getId env) (take (idx - Suc fi) (queue_rest s) @ drop (Suc (idx - Suc fi)) (queue_rest s))
          = take (idx - Suc fi) (map (getId env) (queue_rest s)) @
            drop (Suc (idx - Suc fi)) (map (getId env) (queue_rest s))"
      by (simp add: take_map drop_map)
    then show ?thesis using sorted_remove_at [OF srt] by simp
  qed
  moreover have "\<forall>x \<in> set (take (idx - Suc fi) (queue_rest s) @ drop (Suc (idx - Suc fi)) (queue_rest s)).
                   b \<le> getId env x"
    using lb by (auto dest: in_set_takeD in_set_dropD)
  ultimately show ?thesis
    unfolding q using fi ex gt idx by (simp add: body_inv_def r)
qed

text \<open>A job body keeps to the order of ids when every job it queues has an id that is
  not smaller than the bound.\<close>

definition queues_above :: "job_env \<Rightarrow> bool \<times> int \<Rightarrow> sched_call list \<Rightarrow> bool" where
  "queues_above env b cs = (\<forall>k. QueueJob k \<in> set cs \<longrightarrow> b \<le> getId env k)"

lemma body_inv_do_call:
  assumes "body_inv env fi b ex s" "queues_above env b [c]"
  shows "body_inv env fi b ex (do_call env s c)"
  using assms
  by (cases c) (simp_all add: body_inv_queueJob body_inv_queueCallbacks body_inv_invalidateJob
      queues_above_def)

lemma body_inv_foldl:
  assumes "body_inv env fi b ex s" "queues_above env b cs"
  shows "body_inv env fi b ex (foldl (do_call env) s cs)"
  using assms
proof (induction cs arbitrary: s)
  case Nil
  then show ?case by simp
next
  case (Cons c cs)
  have "body_inv env fi b ex (do_call env s c)"
    using Cons.prems by (intro body_inv_do_call) (auto simp: queues_above_def)
  moreover have "queues_above env b cs" using Cons.prems(2) by (auto simp: queues_above_def)
  ultimately show ?case using Cons.IH by simp
qed


definition ascending_bodies :: "job_env \<Rightarrow> bool" where
  "ascending_bodies env = (\<forall>j. queues_above env (getId env j) (job_body (env j)))"

lemma executed_do_call [simp]: "executed (do_call env s c) = executed s"
  by (cases c)
     (simp_all add: queueJob_def queueFlush_def queuePreFlushCallback_def
        queuePostFlushCallback_def invalidateJob_def Let_def split: option.split)

lemma executed_foldl_do_call [simp]: "executed (foldl (do_call env) s cs) = executed s"
  by (induction cs arbitrary: s) simp_all

lemma executed_call_job [simp]: "executed (call_job env ev j s) = executed s @ [ev]"
  by (simp add: call_job_def)

lemma run_queue_sorted:
  assumes "ascending_bodies env" "run_queue env n s = Some s'"
    and "sorted (map (getId env) (jobs_run (executed s) @ drop (flushIndex s) (queue s)))"
  shows "sorted (map (getId env) (jobs_run (executed s')))"
  using assms(2,3)
proof (induction n arbitrary: s)
  case 0
  then show ?case by simp
next
  case (Suc n)
  define fi where "fi = flushIndex s"
  show ?case
  proof (cases "fi < length (queue s)")
    case False
    with Suc.prems show ?thesis by (simp add: fi_def sorted_append)
  next
    case True
    define j where "j = queue s ! fi"
    define s1 where "s1 = (if job_active (env j) then call_job env (RunJob j) j s else s)"
    have step: "run_queue env n (s1\<lparr>flushIndex := flushIndex s1 + 1\<rparr>) = Some s'"
      using Suc.prems(1) True by (auto simp: fi_def j_def s1_def Let_def split: if_splits)
    have dr: "drop fi (queue s) = j # queue_rest s"
      using True by (simp add: j_def queue_rest_def fi_def Cons_nth_drop_Suc)
    have srt: "sorted (map (getId env) (jobs_run (executed s) @ j # queue_rest s))"
      using Suc.prems(2) dr by (simp add: fi_def)
    have "sorted (map (getId env) (jobs_run (executed s1) @ drop (Suc (flushIndex s1)) (queue s1)))"
    proof (cases "job_active (env j)")
      case False
      then have "s1 = s" by (simp add: s1_def)
      with srt show ?thesis by (auto simp: queue_rest_def fi_def sorted_append)
    next
      case active: True
      define s0 where "s0 = s\<lparr>executed := executed s @ [RunJob j]\<rparr>"
      have s1: "s1 = foldl (do_call env) s0 (job_body (env j))"
        using active by (simp add: s1_def call_job_def s0_def)
      have "body_inv env fi (getId env j) (executed s @ [RunJob j]) s0"
        using True srt by (auto simp: body_inv_def s0_def fi_def queue_rest_def sorted_append)
      moreover have "queues_above env (getId env j) (job_body (env j))"
        using assms(1) by (simp add: ascending_bodies_def)
      ultimately have inv: "body_inv env fi (getId env j) (executed s @ [RunJob j]) s1"
        unfolding s1 by (rule body_inv_foldl)
      then have "flushIndex s1 = fi" "executed s1 = executed s @ [RunJob j]"
        and rs: "sorted (map (getId env) (queue_rest s1))" "\<forall>x \<in> set (queue_rest s1). getId env j \<le> getId env x"
        by (simp_all add: body_inv_def)
      moreover have "\<forall>x \<in> set (jobs_run (executed s)). getId env x \<le> getId env j"
        using srt by (auto simp: sorted_append)
      moreover have "sorted (map (getId env) (jobs_run (executed s)))"
        using srt by (simp add: sorted_append)
      ultimately show ?thesis
        by (auto simp: jobs_run_append sorted_append queue_rest_def intro: order_trans)
    qed
    then show ?thesis using Suc.IH [OF step] by simp
  qed
qed

lemma flushPreFlushCallbacks_jobs_run:
  "flushPreFlushCallbacks env n parent s = Some s' \<Longrightarrow>
     jobs_run (executed s') = jobs_run (executed s)"
proof (induction n arbitrary: s)
  case 0
  then show ?case by simp
next
  case (Suc n)
  show ?case
  proof (cases "pendingPreFlushCallbacks s = []")
    case True
    with Suc.prems show ?thesis by simp
  next
    case False
    have loop: "jobs_run (executed (foldl (\<lambda>t k. call_job env (RunPre (a ! k)) (a ! k)
                   (t\<lparr>preFlushIndex := k\<rparr>)) t0 ks)) = jobs_run (executed t0)" for a t0 ks
      by (induction ks arbitrary: t0) (simp_all add: jobs_run_append)
    from Suc.prems False show ?thesis
      by (auto simp: Let_def loop dest!: Suc.IH)
  qed
qed

lemma executed_queueJob_foldl [simp]:
  "executed (foldl (\<lambda>t j. queueJob env j t) s js) = executed s"
proof (induction js arbitrary: s)
  case Nil
  then show ?case by simp
next
  case (Cons j js)
  have "executed (queueJob env j s) = executed s"
    using executed_do_call [of env s "QueueJob j"] by simp
  with Cons.IH show ?case by simp
qed

text \<open>Jobs that leave the scheduler alone: the pass returns, and has run every active
  job of the queue once, in the order of the sorted queue.\<close>

definition quiet :: "job_env \<Rightarrow> bool" where
  "quiet env = (\<forall>j. job_body (env j) = [])"

lemma run_queue_quiet:
  assumes "quiet env" "flushIndex s \<le> length (queue s)" "length (queue s) - flushIndex s < n"
  shows "run_queue env n s =
     Some (s\<lparr>flushIndex := length (queue s),
             executed := executed s @
               map RunJob (filter (\<lambda>j. job_active (env j)) (drop (flushIndex s) (queue s)))\<rparr>)"
  using assms(2,3)
proof (induction n arbitrary: s)
  case 0
  then show ?case by simp
next
  case (Suc n)
  show ?case
  proof (cases "flushIndex s < length (queue s)")
    case False
    with Suc.prems have "flushIndex s = length (queue s)" by simp
    then show ?thesis by simp
  next
    case True
    define j where "j = queue s ! flushIndex s"
    define s1 where "s1 = (if job_active (env j) then call_job env (RunJob j) j s else s)"
    have cj: "call_job env ev k s = s\<lparr>executed := executed s @ [ev]\<rparr>" for ev k
      using assms(1) by (simp add: call_job_def quiet_def)
    have q1: "queue s1 = queue s" "flushIndex s1 = flushIndex s"
      by (simp_all add: s1_def cj)
    have "run_queue env (Suc n) s = run_queue env n (s1\<lparr>flushIndex := flushIndex s1 + 1\<rparr>)"
      using True by (simp add: j_def s1_def Let_def)
    also have "\<dots> = Some (s1\<lparr>flushIndex := flushIndex s1 + 1\<rparr>
         \<lparr>flushIndex := length (queue s),
          executed := executed s1 @
            map RunJob (filter (\<lambda>j. job_active (env j)) (drop (Suc (flushIndex s)) (queue s)))\<rparr>)"
      using Suc.IH [of "s1\<lparr>flushIndex := flushIndex s1 + 1\<rparr>"] Suc.prems True
      by (simp add: q1)
    also have "\<dots> = Some (s\<lparr>flushIndex := length (queue s),
             executed := executed s @
               map RunJob (filter (\<lambda>j. job_active (env j)) (drop (flushIndex s) (queue s)))\<rparr>)"
      using True by (simp add: s1_def cj Cons_nth_drop_Suc [symmetric] j_def)
    finally show ?thesis .
  qed
qed

lemma jobs_run_map_RunJob [simp]: "jobs_run (map RunJob js) = js"
  by (induction js) simp_all

lemma flush_pass_quiet:
  assumes "quiet env" "pendingPreFlushCallbacks s = []" "length (queue s) < n"
  shows "\<exists>s'. flush_pass env n s = Some s' \<and>
     executed s' = executed s @
       map RunJob (filter (\<lambda>j. job_active (env j)) (sort_key (getId env) (queue s)))"
proof -
  obtain m where n: "n = Suc m" using assms(3) by (cases n) auto
  have "flushPreFlushCallbacks env n None (s\<lparr>isFlushPending := False, isFlushing := True\<rparr>)
        = Some (s\<lparr>isFlushPending := False, isFlushing := True\<rparr>)"
    using assms(2) by (simp add: n)
  then show ?thesis
    using assms(3) by (simp add: flush_pass_def run_queue_quiet [OF assms(1)])
qed



text \<open>Queued any number of times before the flush, a job is in the queue once.\<close>

lemma queueJob_idle_queue: "queue (queueJob env j idle) = [j]"
proof -
  have "findInsertionIndex_loop env [] i (Suc 0) 0 = Suc 0" for i
    by (subst findInsertionIndex_loop.simps) simp
  then show ?thesis
    by (simp add: queueJob_def idle_def queueFlush_def findInsertionIndex_def splice_in_def
        split: option.split)
qed

lemma queueJob_again:
  assumes "\<not> isFlushing s" "flushIndex s = 0" "j \<in> set (queue s)"
  shows "queueJob env j s = s"
  using assms by (auto simp: queueJob_def includes_from_def)

lemma queueJob_replicate:
  "0 < n \<Longrightarrow> foldl (\<lambda>t j. queueJob env j t) idle (replicate n j) = queueJob env j idle"
proof (induction n)
  case 0
  then show ?case by simp
next
  case (Suc n)
  show ?case
  proof (cases "n = 0")
    case True
    then show ?thesis by simp
  next
    case False
    then have "foldl (\<lambda>t j. queueJob env j t) idle (replicate n j) = queueJob env j idle"
      using Suc.IH by simp
    moreover have "queueJob env j (queueJob env j idle) = queueJob env j idle"
    proof (rule queueJob_again)
      show "\<not> isFlushing (queueJob env j idle)"
        by (simp add: queueJob_def idle_def queueFlush_def split: option.split)
      show "flushIndex (queueJob env j idle) = 0"
        using queueFlush_fields(2) by (simp add: queueJob_def idle_def split: option.split)
      show "j \<in> set (queue (queueJob env j idle))" by (simp add: queueJob_idle_queue)
    qed
    moreover have "replicate (Suc n) j = replicate n j @ [j]"
      by (simp add: replicate_append_same)
    ultimately show ?thesis by (simp del: replicate_Suc)
  qed
qed


definition env_quiet :: job_env where
  "env_quiet j = \<lparr>job_id = (if j = 0 then None else Some (int j)), job_active = True,
      job_allowRecurse = False, job_body = []\<rparr>"

definition env_requeue :: job_env where
  "env_requeue j = \<lparr>job_id = Some (int j), job_active = True,
      job_allowRecurse = False, job_body = (if j = 5 then [QueueJob 1] else [])\<rparr>"

text \<open>
  C5, as the specification states it, fails for a job queued while the pass runs: the
  binary search of \<open>findInsertionIndex\<close> starts behind the cursor, so the job with id 1
  that the job with id 5 queues runs after it, between the jobs with ids 5 and 7.
\<close>

theorem flush_pass_requeue_counterexample:
  "map_option (\<lambda>s. jobs_run (executed s))
     (flush_pass env_requeue 6 (foldl (\<lambda>t j. queueJob env_requeue j t) idle [5, 7, 3]))
     = Some [3, 5, 1, 7] \<and>
   \<not> sorted (map (getId env_requeue) [3, 5, 1, 7])"
  by code_simp

text \<open>
  C4 does not hold of the code: \<open>queuePreFlushCallback\<close> pushes onto
  \<open>pendingPostFlushCallbacks\<close>. A callback queued with it before the flush runs in the
  post-flush loop, after the job of the main queue.
\<close>

theorem queuePreFlushCallback_runs_after_queue:
  "map_option executed
     (flushJobs env_quiet 4 (queueJob env_quiet 2 (queuePreFlushCallback env_quiet 0 idle)))
     = Some [RunJob 2, RunPost 0]"
  by code_simp


text \<open>The jobs that a body queues with \<open>queueJob\<close>.\<close>

fun queued :: "sched_call list \<Rightarrow> job list" where
  "queued [] = []"
| "queued (QueueJob k # cs) = k # queued cs"
| "queued (_ # cs) = queued cs"

text \<open>
  \<open>bounded_work env cost\<close>: the cost of a job is greater than the costs of the jobs that
  its body queues, taken together. Then the jobs of a queue, with all the jobs they
  cause, are run in at most as many steps as the costs of the queue add up to.
\<close>

definition bounded_work :: "job_env \<Rightarrow> (job \<Rightarrow> nat) \<Rightarrow> bool" where
  "bounded_work env cost = (\<forall>j. sum_list (map cost (queued (job_body (env j)))) < cost j)"

lemma findInsertionIndex_loop_bounds:
  "start \<le> findInsertionIndex_loop env q i start end' \<and>
   (start \<le> end' \<longrightarrow> findInsertionIndex_loop env q i start end' \<le> end')"
proof (induction env q i start end' rule: findInsertionIndex_loop.induct)
  case (1 env q i start end')
  show ?case
  proof (cases "start < end'")
    case False
    then have "findInsertionIndex_loop env q i start end' = start"
      by (subst findInsertionIndex_loop.simps) simp
    then show ?thesis by simp
  next
    case True
    define middle where "middle = (start + end') div 2"
    have m: "start \<le> middle" "middle < end'" using True by (simp_all add: middle_def)
    show ?thesis
    proof (cases "getId env (q ! middle) < (False, i)")
      case lt: True
      have "findInsertionIndex_loop env q i start end' =
            findInsertionIndex_loop env q i (middle + 1) end'"
        using True lt by (subst findInsertionIndex_loop.simps) (simp add: middle_def Let_def)
      then show ?thesis
        using "1.IH"(1) [OF True refl, folded middle_def, OF lt] m by simp
    next
      case ge: False
      have "findInsertionIndex_loop env q i start end' =
            findInsertionIndex_loop env q i start middle"
        using True ge by (subst findInsertionIndex_loop.simps) (simp add: middle_def Let_def)
      then show ?thesis
        using "1.IH"(2) [OF True refl, folded middle_def, OF ge] m by simp
    qed
  qed
qed

text \<open>A job that \<open>queueJob\<close> takes into the queue is put behind the cursor.\<close>

lemma queueJob_behind_cursor:
  assumes "flushIndex s < length (queue s)"
  shows "queueJob env k s = s \<or>
     (\<exists>p. flushIndex s < p \<and> p \<le> length (queue s) \<and>
        queue (queueJob env k s) = take p (queue s) @ k # drop p (queue s))"
proof (cases "queueJob env k s = s")
  case True
  then show ?thesis by simp
next
  case False
  then have q: "queueJob env k s = queueFlush
          (case job_id (env k) of
             None \<Rightarrow> s\<lparr>queue := queue s @ [k]\<rparr>
           | Some i \<Rightarrow> s\<lparr>queue := splice_in (queue s) (findInsertionIndex env s i) k\<rparr>)"
    using queueJob_cases [of env k s] by blast
  show ?thesis
  proof (cases "job_id (env k)")
    case None
    then have "queue (queueJob env k s) = take (length (queue s)) (queue s) @ k # drop (length (queue s)) (queue s)"
      using q by simp
    then show ?thesis using assms by blast
  next
    case (Some i)
    define p where "p = findInsertionIndex env s i"
    have "flushIndex s + 1 \<le> p \<and> p \<le> length (queue s)"
      using findInsertionIndex_loop_bounds [of "flushIndex s + 1" env "queue s" i "length (queue s)"]
        assms by (simp add: p_def findInsertionIndex_def)
    then have "flushIndex s < p" "p \<le> length (queue s)" by simp_all
    moreover have "queue (queueJob env k s) = take p (queue s) @ k # drop p (queue s)"
      using q Some by (simp add: p_def splice_in_def)
    ultimately show ?thesis by blast
  qed
qed

lemma flushIndex_queueJob [simp]: "flushIndex (queueJob env k s) = flushIndex s"
  by (simp add: queueJob_def split: option.split)

definition work :: "(job \<Rightarrow> nat) \<Rightarrow> scheduler \<Rightarrow> nat" where
  "work cost s = sum_list (map cost (queue_rest s))"

definition body_work :: "(job \<Rightarrow> nat) \<Rightarrow> nat \<Rightarrow> nat \<Rightarrow> scheduler \<Rightarrow> bool" where
  "body_work cost fi b s \<longleftrightarrow> flushIndex s = fi \<and> fi < length (queue s) \<and> work cost s \<le> b"

lemma body_work_queueJob:
  assumes "body_work cost fi b s"
  shows "body_work cost fi (b + cost k) (queueJob env k s)"
proof -
  have fi: "flushIndex s = fi" "fi < length (queue s)" "work cost s \<le> b"
    using assms by (simp_all add: body_work_def)
  from queueJob_behind_cursor [of s env k] fi
  consider "queueJob env k s = s"
    | p where "fi < p" "p \<le> length (queue s)"
        "queue (queueJob env k s) = take p (queue s) @ k # drop p (queue s)"
    by auto
  then show ?thesis
  proof cases
    case 1
    then show ?thesis using fi by (simp add: body_work_def)
  next
    case 2
    have "queue_rest (queueJob env k s) = drop (Suc fi) (take p (queue s)) @ k # drop p (queue s)"
      using 2 fi by (simp add: queue_rest_def)
    moreover have "queue_rest s = drop (Suc fi) (take p (queue s)) @ drop p (queue s)"
    proof -
      have "drop (Suc fi) (take p (queue s) @ drop p (queue s)) =
            drop (Suc fi) (take p (queue s)) @ drop p (queue s)"
        using 2(1,2) by (simp del: append_take_drop_id)
      then show ?thesis unfolding append_take_drop_id queue_rest_def fi(1) .
    qed
    ultimately have "work cost (queueJob env k s) = work cost s + cost k"
      by (simp add: work_def)
    then show ?thesis using fi 2 by (simp add: body_work_def)
  qed
qed

lemma sum_list_remove_at: "sum_list (map f (take n xs @ drop (Suc n) xs)) \<le> sum_list (map f (xs :: 'a list) :: nat list)"
proof -
  have a: "sum_list (map f xs) = sum_list (map f (take n xs)) + sum_list (map f (drop n xs))"
    by (metis append_take_drop_id map_append sum_list_append)
  have "sum_list (map f (drop (Suc n) xs)) \<le> sum_list (map f (drop n xs))"
  proof (cases "n < length xs")
    case True
    then have "drop n xs = xs ! n # drop (Suc n) xs" by (simp add: Cons_nth_drop_Suc)
    then show ?thesis by simp
  next
    case False
    then show ?thesis by simp
  qed
  then show ?thesis using a by simp
qed

lemma body_work_invalidateJob:
  assumes "body_work cost fi b s"
  shows "body_work cost fi b (invalidateJob j s)"
proof (cases "invalidateJob j s = s")
  case True
  with assms show ?thesis by simp
next
  case False
  define idx where "idx = length (takeWhile (\<lambda>x. x \<noteq> j) (queue s))"
  have inq: "j \<in> set (queue s)" and gt: "idx > flushIndex s"
    and q: "invalidateJob j s = s\<lparr>queue := take idx (queue s) @ drop (Suc idx) (queue s)\<rparr>"
    using False by (auto simp: invalidateJob_def Let_def idx_def split: if_splits)
  have fi: "flushIndex s = fi" "fi < length (queue s)" "work cost s \<le> b"
    using assms by (simp_all add: body_work_def)
  have idx: "idx < length (queue s)"
    using inq unfolding idx_def by (rule indexOf_less)
  have r: "queue_rest (s\<lparr>queue := take idx (queue s) @ drop (Suc idx) (queue s)\<rparr>)
           = take (idx - Suc fi) (queue_rest s) @ drop (Suc (idx - Suc fi)) (queue_rest s)"
    using gt fi idx by (auto simp: queue_rest_def drop_take)
  have "work cost (invalidateJob j s) \<le> work cost s"
    unfolding q work_def r by (rule sum_list_remove_at)
  then show ?thesis using fi gt idx by (simp add: body_work_def q)
qed

lemma body_work_callbacks:
  "body_work cost fi b (queuePreFlushCallback env c s) = body_work cost fi b s"
  "body_work cost fi b (queuePostFlushCallback env cb s) = body_work cost fi b s"
  by (simp_all add: queuePreFlushCallback_def queuePostFlushCallback_def body_work_def
      work_def queue_rest_def queueFlush_def)

lemma body_work_foldl:
  assumes "body_work cost fi b s"
  shows "body_work cost fi (b + sum_list (map cost (queued cs))) (foldl (do_call env) s cs)"
  using assms
proof (induction cs arbitrary: s b)
  case Nil
  then show ?case by simp
next
  case (Cons c cs)
  show ?case
  proof (cases c)
    case (QueueJob k)
    have "body_work cost fi (b + cost k) (do_call env s c)"
      using Cons.prems QueueJob by (simp add: body_work_queueJob)
    from Cons.IH [OF this] show ?thesis using QueueJob by (simp add: add.assoc)
  next
    case (QueuePreFlushCallback k)
    have "body_work cost fi b (do_call env s c)"
      using Cons.prems QueuePreFlushCallback by (simp add: body_work_callbacks)
    from Cons.IH [OF this] show ?thesis using QueuePreFlushCallback by simp
  next
    case (QueuePostFlushCallback cb)
    have "body_work cost fi b (do_call env s c)"
      using Cons.prems QueuePostFlushCallback by (simp add: body_work_callbacks)
    from Cons.IH [OF this] show ?thesis using QueuePostFlushCallback by simp
  next
    case (InvalidateJob k)
    have "body_work cost fi b (do_call env s c)"
      using Cons.prems InvalidateJob by (simp add: body_work_invalidateJob)
    from Cons.IH [OF this] show ?thesis using InvalidateJob by simp
  qed
qed

text \<open>With bounded work the loop over the queue ends.\<close>

lemma run_queue_returns:
  assumes "bounded_work env cost"
    and "sum_list (map cost (drop (flushIndex s) (queue s))) < n"
  shows "\<exists>s'. run_queue env n s = Some s'"
  using assms(2)
proof (induction n arbitrary: s)
  case 0
  then show ?case by simp
next
  case (Suc n)
  define fi where "fi = flushIndex s"
  show ?case
  proof (cases "fi < length (queue s)")
    case False
    then show ?thesis by (simp add: fi_def)
  next
    case True
    define j where "j = queue s ! fi"
    define s1 where "s1 = (if job_active (env j) then call_job env (RunJob j) j s else s)"
    have dr: "drop fi (queue s) = j # queue_rest s"
      using True by (simp add: j_def queue_rest_def fi_def Cons_nth_drop_Suc)
    have w: "cost j + work cost s < Suc n"
      using Suc.prems dr by (simp add: fi_def work_def)
    have cj: "sum_list (map cost (queued (job_body (env j)))) < cost j"
      using assms(1) by (simp add: bounded_work_def)
    have b: "flushIndex s1 = fi \<and> work cost s1 < cost j + work cost s"
    proof (cases "job_active (env j)")
      case False
      then show ?thesis using cj by (simp add: s1_def fi_def)
    next
      case True
      define s0 where "s0 = s\<lparr>executed := executed s @ [RunJob j]\<rparr>"
      have "body_work cost fi (work cost s) s0"
        using \<open>fi < length (queue s)\<close>
        by (simp add: body_work_def s0_def fi_def work_def queue_rest_def)
      from body_work_foldl [OF this, of "job_body (env j)" env]
      have "body_work cost fi (work cost s + sum_list (map cost (queued (job_body (env j))))) s1"
        using True by (simp add: s1_def call_job_def s0_def)
      then show ?thesis using cj by (simp add: body_work_def)
    qed
    have "sum_list (map cost (drop (flushIndex (s1\<lparr>flushIndex := flushIndex s1 + 1\<rparr>))
            (queue (s1\<lparr>flushIndex := flushIndex s1 + 1\<rparr>)))) = work cost s1"
      by (simp add: work_def queue_rest_def)
    then have "sum_list (map cost (drop (flushIndex (s1\<lparr>flushIndex := flushIndex s1 + 1\<rparr>))
            (queue (s1\<lparr>flushIndex := flushIndex s1 + 1\<rparr>)))) < n"
      using b w by simp
    from Suc.IH [OF this] obtain s' where
      "run_queue env n (s1\<lparr>flushIndex := flushIndex s1 + 1\<rparr>) = Some s'" by blast
    moreover have "run_queue env (Suc n) s = run_queue env n (s1\<lparr>flushIndex := flushIndex s1 + 1\<rparr>)"
      using True by (simp add: fi_def j_def s1_def Let_def)
    ultimately show ?thesis by simp
  qed
qed

lemma sum_list_insort_key:
  "sum_list (map f (insort_key g x xs)) = (f x :: nat) + sum_list (map f xs)"
  by (induction xs) simp_all

lemma sum_list_sort_key:
  "sum_list (map f (sort_key g xs)) = (sum_list (map f xs) :: nat)"
  by (induction xs) (simp_all add: sum_list_insort_key)

lemma flush_pass_returns:
  assumes "bounded_work env cost" "pendingPreFlushCallbacks s = []"
  shows "\<exists>s'. flush_pass env (Suc (sum_list (map cost (queue s)))) s = Some s'"
proof -
  define n where "n = sum_list (map cost (queue s))"
  define s1 where "s1 = s\<lparr>isFlushPending := False, isFlushing := True\<rparr>"
  have "flushPreFlushCallbacks env (Suc n) None s1 = Some s1"
    using assms(2) by (simp add: s1_def)
  moreover have "\<exists>s'. run_queue env (Suc n)
      (s1\<lparr>queue := sort_key (getId env) (queue s1), flushIndex := 0\<rparr>) = Some s'"
    using run_queue_returns [OF assms(1),
        of "s1\<lparr>queue := sort_key (getId env) (queue s1), flushIndex := 0\<rparr>" "Suc n"]
    by (simp add: sum_list_sort_key s1_def n_def)
  ultimately show ?thesis by (simp add: flush_pass_def s1_def n_def)
qed


text \<open>
  A job that no body queues or invalidates is run as often as it is in the queue when
  the loop starts.
\<close>

definition untouched :: "job_env \<Rightarrow> job \<Rightarrow> bool" where
  "untouched env j = (\<forall>k. QueueJob j \<notin> set (job_body (env k)) \<and>
                          InvalidateJob j \<notin> set (job_body (env k)))"

definition body_count :: "job \<Rightarrow> nat \<Rightarrow> nat \<Rightarrow> scheduler \<Rightarrow> bool" where
  "body_count j fi c s \<longleftrightarrow>
     flushIndex s = fi \<and> fi < length (queue s) \<and> count_list (queue_rest s) j = c"

lemma body_count_queueJob:
  assumes "body_count j fi c s" "k \<noteq> j"
  shows "body_count j fi c (queueJob env k s)"
proof -
  have fi: "flushIndex s = fi" "fi < length (queue s)" "count_list (queue_rest s) j = c"
    using assms by (simp_all add: body_count_def)
  from queueJob_behind_cursor [of s env k] fi
  consider "queueJob env k s = s"
    | p where "fi < p" "p \<le> length (queue s)"
        "queue (queueJob env k s) = take p (queue s) @ k # drop p (queue s)"
    by auto
  then show ?thesis
  proof cases
    case 1
    then show ?thesis using assms by simp
  next
    case 2
    have "queue_rest (queueJob env k s) = drop (Suc fi) (take p (queue s)) @ k # drop p (queue s)"
      using 2 fi by (simp add: queue_rest_def)
    moreover have "queue_rest s = drop (Suc fi) (take p (queue s)) @ drop p (queue s)"
    proof -
      have "drop (Suc fi) (take p (queue s) @ drop p (queue s)) =
            drop (Suc fi) (take p (queue s)) @ drop p (queue s)"
        using 2(1,2) by (simp del: append_take_drop_id)
      then show ?thesis unfolding append_take_drop_id queue_rest_def fi(1) .
    qed
    ultimately have "count_list (queue_rest (queueJob env k s)) j = count_list (queue_rest s) j"
      using assms(2) by simp
    then show ?thesis using fi 2 by (simp add: body_count_def)
  qed
qed

lemma indexOf_nth: "j \<in> set q \<Longrightarrow> q ! length (takeWhile (\<lambda>x. x \<noteq> j) q) = j"
  by (induction q) auto

lemma body_count_invalidateJob:
  assumes "body_count j fi c s" "k \<noteq> j"
  shows "body_count j fi c (invalidateJob k s)"
proof (cases "invalidateJob k s = s")
  case True
  with assms show ?thesis by simp
next
  case False
  define idx where "idx = length (takeWhile (\<lambda>x. x \<noteq> k) (queue s))"
  have inq: "k \<in> set (queue s)" and gt: "idx > flushIndex s"
    and q: "invalidateJob k s = s\<lparr>queue := take idx (queue s) @ drop (Suc idx) (queue s)\<rparr>"
    using False by (auto simp: invalidateJob_def Let_def idx_def split: if_splits)
  have fi: "flushIndex s = fi" "fi < length (queue s)" "count_list (queue_rest s) j = c"
    using assms by (simp_all add: body_count_def)
  have idx: "idx < length (queue s)"
    using inq unfolding idx_def by (rule indexOf_less)
  have at: "queue s ! idx = k" using inq unfolding idx_def by (rule indexOf_nth)
  define m where "m = idx - Suc fi"
  have r: "queue_rest (s\<lparr>queue := take idx (queue s) @ drop (Suc idx) (queue s)\<rparr>)
           = take m (queue_rest s) @ drop (Suc m) (queue_rest s)"
    using gt fi idx by (auto simp: queue_rest_def drop_take m_def)
  have ml: "m < length (queue_rest s)" using gt fi idx by (simp add: queue_rest_def m_def)
  have "queue_rest s ! m = k" using gt fi idx at by (simp add: queue_rest_def m_def)
  then have "queue_rest s = take m (queue_rest s) @ k # drop (Suc m) (queue_rest s)"
    using ml by (metis id_take_nth_drop)
  then have "count_list (queue_rest s) j =
      count_list (take m (queue_rest s) @ k # drop (Suc m) (queue_rest s)) j" by simp
  also have "\<dots> = count_list (take m (queue_rest s) @ drop (Suc m) (queue_rest s)) j"
    using assms(2) by simp
  finally show ?thesis using fi gt idx by (simp add: body_count_def q r)
qed

lemma body_count_callbacks:
  "body_count j fi c (queuePreFlushCallback env k s) = body_count j fi c s"
  "body_count j fi c (queuePostFlushCallback env cb s) = body_count j fi c s"
  by (simp_all add: queuePreFlushCallback_def queuePostFlushCallback_def body_count_def
      queue_rest_def queueFlush_def)

lemma body_count_foldl:
  assumes "body_count j fi c s" "QueueJob j \<notin> set cs" "InvalidateJob j \<notin> set cs"
  shows "body_count j fi c (foldl (do_call env) s cs)"
  using assms
proof (induction cs arbitrary: s)
  case Nil
  then show ?case by simp
next
  case (Cons x cs)
  have "body_count j fi c (do_call env s x)"
    using Cons.prems
    by (cases x) (auto simp: body_count_queueJob body_count_invalidateJob body_count_callbacks)
  then show ?case using Cons.IH Cons.prems by simp
qed

lemma count_list_jobs_run_snoc:
  "count_list (jobs_run (ex @ [RunJob k])) j = count_list (jobs_run ex) j + (if k = j then 1 else 0)"
  by (simp add: jobs_run_append)

lemma run_queue_count:
  assumes "untouched env j" "run_queue env n s = Some s'"
  shows "count_list (jobs_run (executed s')) j =
     count_list (jobs_run (executed s)) j +
     (if job_active (env j) then count_list (drop (flushIndex s) (queue s)) j else 0)"
  using assms(2)
proof (induction n arbitrary: s)
  case 0
  then show ?case by simp
next
  case (Suc n)
  define fi where "fi = flushIndex s"
  show ?case
  proof (cases "fi < length (queue s)")
    case False
    then show ?thesis using Suc.prems by (simp add: fi_def)
  next
    case True
    define k where "k = queue s ! fi"
    define s1 where "s1 = (if job_active (env k) then call_job env (RunJob k) k s else s)"
    have step: "run_queue env n (s1\<lparr>flushIndex := flushIndex s1 + 1\<rparr>) = Some s'"
      using Suc.prems True by (auto simp: fi_def k_def s1_def Let_def split: if_splits)
    have dr: "drop fi (queue s) = k # queue_rest s"
      using True by (simp add: k_def queue_rest_def fi_def Cons_nth_drop_Suc)
    have b: "body_count j fi (count_list (queue_rest s) j) s1 \<and>
        executed s1 = executed s @ (if job_active (env k) then [RunJob k] else [])"
    proof (cases "job_active (env k)")
      case False
      then show ?thesis using True by (simp add: s1_def body_count_def fi_def)
    next
      case active: True
      define s0 where "s0 = s\<lparr>executed := executed s @ [RunJob k]\<rparr>"
      have "body_count j fi (count_list (queue_rest s) j) s0"
        using True by (simp add: body_count_def s0_def fi_def queue_rest_def)
      moreover have "QueueJob j \<notin> set (job_body (env k))" "InvalidateJob j \<notin> set (job_body (env k))"
        using assms(1) by (simp_all add: untouched_def)
      ultimately have "body_count j fi (count_list (queue_rest s) j) (foldl (do_call env) s0 (job_body (env k)))"
        by (rule body_count_foldl)
      then show ?thesis using active by (simp add: s1_def call_job_def s0_def)
    qed
    have "drop (flushIndex (s1\<lparr>flushIndex := flushIndex s1 + 1\<rparr>))
            (queue (s1\<lparr>flushIndex := flushIndex s1 + 1\<rparr>)) = queue_rest s1"
      by (simp add: queue_rest_def)
    then have 1: "count_list (jobs_run (executed s')) j =
       count_list (jobs_run (executed s1)) j +
       (if job_active (env j) then count_list (queue_rest s1) j else 0)"
      using Suc.IH [OF step] by simp
    have 2: "count_list (queue_rest s1) j = count_list (queue_rest s) j"
      using b by (simp add: body_count_def)
    have 3: "count_list (jobs_run (executed s1)) j =
       count_list (jobs_run (executed s)) j + (if job_active (env k) \<and> k = j then 1 else 0)"
      using b by (auto simp: jobs_run_append)
    have 4: "count_list (drop (flushIndex s) (queue s)) j =
       (if k = j then 1 else 0) + count_list (queue_rest s) j"
      using dr by (simp add: fi_def)
    show ?thesis
    proof (cases "job_active (env j)")
      case True
      then have "(if job_active (env k) \<and> k = j then 1 else 0) = (if k = j then 1 else (0 :: nat))"
        by auto
      then show ?thesis using True 1 2 3 4 by simp
    next
      case False
      then have "(if job_active (env k) \<and> k = j then 1 else 0) = (0 :: nat)" by auto
      then show ?thesis using False 1 3 by simp
    qed
  qed
qed

lemma count_list_insort_key: "count_list (insort_key g x xs) j = count_list (x # xs) j"
  by (induction xs) auto

lemma count_list_sort_key: "count_list (sort_key g xs) j = count_list xs j"
  by (induction xs) (simp_all add: count_list_insort_key)

text \<open>
  So a job that was queued any number of times before the flush, and that no job
  queues again or invalidates, is run once in the pass.
\<close>

lemma queued_job_runs_once_in_pass:
  assumes "untouched env j" "job_active (env j)" "0 < n"
    and "flush_pass env m (foldl (\<lambda>t j. queueJob env j t) idle (replicate n j)) = Some s'"
  shows "count_list (jobs_run (executed s')) j = 1"
proof -
  define s where "s = queueJob env j idle"
  have q: "queue s = [j]" by (simp add: s_def queueJob_idle_queue)
  have p: "pendingPreFlushCallbacks s = []" "executed s = []"
    by (simp_all add: s_def queueJob_def idle_def queueFlush_def split: option.split)
  have f: "flush_pass env m s = Some s'"
    using assms(3,4) by (simp add: queueJob_replicate s_def)
  obtain k where m: "m = Suc k" using f by (cases m) (auto simp: flush_pass_def)
  have "flushPreFlushCallbacks env m None (s\<lparr>isFlushPending := False, isFlushing := True\<rparr>) =
      Some (s\<lparr>isFlushPending := False, isFlushing := True\<rparr>)"
    using p by (simp add: m)
  then have "run_queue env m (s\<lparr>isFlushPending := False, isFlushing := True,
      queue := sort_key (getId env) (queue s), flushIndex := 0\<rparr>) = Some s'"
    using f by (simp add: flush_pass_def)
  from run_queue_count [OF assms(1) this] show ?thesis
    using assms(2) q p by simp
qed


lemma pending_queueJob_foldl [simp]:
  "pendingPreFlushCallbacks (foldl (\<lambda>t j. queueJob env j t) s js) = pendingPreFlushCallbacks s"
proof (induction js arbitrary: s)
  case Nil
  then show ?case by simp
next
  case (Cons j js)
  have "pendingPreFlushCallbacks (queueJob env j s) = pendingPreFlushCallbacks s"
    by (simp add: queueJob_def queueFlush_def split: option.split)
  with Cons.IH show ?case by simp
qed

definition env_chain :: job_env where
  "env_chain j = \<lparr>job_id = Some (int j), job_active = True,
      job_allowRecurse = False, job_body = (if j = 1 then [QueueJob 3] else [])\<rparr>"

definition cost_chain :: "job \<Rightarrow> nat" where
  "cost_chain j = (if j = 1 then 2 else 1)"

definition mid_flush :: scheduler where
  "mid_flush = idle\<lparr>queue := [3, 5, 7], flushIndex := 1, isFlushing := True\<rparr>"

text \<open>
  C5, amended. The queue is filled by calls of \<open>queueJob\<close> in any order before the pass,
  and a job that queues further jobs while it runs only queues jobs whose id is not
  smaller than its own. Then the jobs of the main queue run in ascending order of their
  ids, jobs without an id last: of every pass that returns this holds, and the pass
  returns, within the fuel given, if the work is bounded. When no job touches the
  scheduler, the jobs run are the active jobs of the sorted queue. A job that is
  queued while the pass runs is put behind the cursor, whatever its id.
\<close>

theorem flush_pass_ascending:
  assumes "ascending_bodies env"
    and "s = foldl (\<lambda>t j. queueJob env j t) idle js"
  shows "(\<forall>n s'. flush_pass env n s = Some s' \<longrightarrow>
            sorted (map (getId env) (jobs_run (executed s')))) \<and>
    (bounded_work env cost \<longrightarrow>
       (\<exists>s'. flush_pass env (Suc (sum_list (map cost (queue s)))) s = Some s' \<and>
          sorted (map (getId env) (jobs_run (executed s'))))) \<and>
    (quiet env \<longrightarrow>
       (\<exists>s'. flush_pass env (Suc (length (queue s))) s = Some s' \<and>
          jobs_run (executed s') =
            filter (\<lambda>j. job_active (env j)) (sort_key (getId env) (queue s)))) \<and>
    (\<forall>t k. flushIndex t < length (queue t) \<longrightarrow>
       queueJob env k t = t \<or>
       (\<exists>p. flushIndex t < p \<and> p \<le> length (queue t) \<and>
          queue (queueJob env k t) = take p (queue t) @ k # drop p (queue t)))"
proof -
  have pp: "pendingPreFlushCallbacks s = []" "executed s = []"
    by (simp_all add: assms(2) idle_def)
  have srt: "sorted (map (getId env) (jobs_run (executed s')))"
    if f: "flush_pass env n s = Some s'" for n s'
  proof -
    obtain s1 where pre: "flushPreFlushCallbacks env n None
          (s\<lparr>isFlushPending := False, isFlushing := True\<rparr>) = Some s1"
      and run: "run_queue env n (s1\<lparr>queue := sort_key (getId env) (queue s1), flushIndex := 0\<rparr>)
          = Some s'"
      using f by (auto simp: flush_pass_def split: option.splits)
    have "jobs_run (executed s1) = []"
      using flushPreFlushCallbacks_jobs_run [OF pre] pp by simp
    then show ?thesis
      using run_queue_sorted [OF assms(1) run] by simp
  qed
  have ret: "\<exists>s'. flush_pass env (Suc (sum_list (map cost (queue s)))) s = Some s' \<and>
          sorted (map (getId env) (jobs_run (executed s')))"
    if "bounded_work env cost"
    using flush_pass_returns [OF that pp(1)] srt by blast
  have qt: "\<exists>s'. flush_pass env (Suc (length (queue s))) s = Some s' \<and>
          jobs_run (executed s') =
            filter (\<lambda>j. job_active (env j)) (sort_key (getId env) (queue s))"
    if "quiet env"
    using flush_pass_quiet [OF that pp(1), of "Suc (length (queue s))"] pp(2) by auto
  show ?thesis
    using srt ret qt queueJob_behind_cursor by blast
qed

theorem flush_pass_ascending_witness:
  "ascending_bodies env_chain \<and> bounded_work env_chain cost_chain \<and> quiet env_quiet \<and>
   map_option (\<lambda>s. jobs_run (executed s))
     (flush_pass env_chain 4 (foldl (\<lambda>t j. queueJob env_chain j t) idle [2, 1])) = Some [1, 2, 3] \<and>
   sorted (map (getId env_chain) [1, 2, 3]) \<and>
   map_option (\<lambda>s. jobs_run (executed s))
     (flush_pass env_quiet 3 (foldl (\<lambda>t j. queueJob env_quiet j t) idle [2, 1])) = Some [1, 2] \<and>
   flushIndex mid_flush < length (queue mid_flush) \<and>
   queue (queueJob env_chain 1 mid_flush) = take 2 (queue mid_flush) @ 1 # drop 2 (queue mid_flush) \<and>
   queue (queueJob env_chain 1 mid_flush) = [3, 5, 1, 7]"
proof -
  have a: "ascending_bodies env_chain"
    by (simp add: ascending_bodies_def queues_above_def env_chain_def getId_def)
  have b: "bounded_work env_chain cost_chain"
    by (simp add: bounded_work_def env_chain_def cost_chain_def)
  have a': "ascending_bodies env_quiet"
    by (simp add: ascending_bodies_def queues_above_def env_quiet_def)
  have c: "quiet env_quiet" by (simp add: quiet_def env_quiet_def)
  define s where "s = foldl (\<lambda>t j. queueJob env_chain j t) idle [2, 1]"
  define u where "u = foldl (\<lambda>t j. queueJob env_quiet j t) idle [2, 1]"
  have q: "queue s = [2, 1]" unfolding s_def by code_simp
  have qu: "queue u = [2, 1]" unfolding u_def by code_simp
  have n: "Suc (sum_list (map cost_chain (queue s))) = 4"
    using q by (simp add: cost_chain_def)
  have l: "Suc (length (queue u)) = 3" using qu by simp
  note t = flush_pass_ascending [OF a s_def, of cost_chain]
  note t2 = t [THEN conjunct2, THEN conjunct1, rule_format, OF b, unfolded n]
  note t3 = flush_pass_ascending [OF a' u_def, of cost_chain, THEN conjunct2, THEN conjunct2,
      THEN conjunct1, rule_format, OF c, unfolded l]
  from t2 obtain s' where s': "flush_pass env_chain 4 s = Some s'"
    "sorted (map (getId env_chain) (jobs_run (executed s')))"
    by blast
  have e: "map_option (\<lambda>s. jobs_run (executed s)) (flush_pass env_chain 4 s) = Some [1, 2, 3]"
    unfolding s_def by code_simp
  then have r: "jobs_run (executed s') = [1, 2, 3]" using s'(1) by simp
  from t3 obtain u' where u': "flush_pass env_quiet 3 u = Some u'"
    "jobs_run (executed u') =
      filter (\<lambda>j. job_active (env_quiet j)) (sort_key (getId env_quiet) (queue u))"
    by blast
  have "filter (\<lambda>j. job_active (env_quiet j)) (sort_key (getId env_quiet) [2, 1 :: nat]) = [1, 2]"
    by code_simp
  then have ru: "jobs_run (executed u') = [1, 2]" using u'(2) qu by simp
  have m: "flushIndex mid_flush < length (queue mid_flush)" by (simp add: mid_flush_def idle_def)
  have m2: "queue (queueJob env_chain 1 mid_flush) = [3, 5, 1, 7]" by code_simp
  have m3: "take 2 (queue mid_flush) @ 1 # drop 2 (queue mid_flush) = [3, 5, 1, 7]"
    by (simp add: mid_flush_def idle_def)
  show ?thesis using a b c e s'(2) r u'(1) ru m m2 m3 by (simp add: s_def u_def)
qed


section \<open>Dependencies and effects (reactivity/src/dep.js, effect.js)\<close>

text \<open>The type of an object, as \<open>toRawType\<close> reads it.\<close>

datatype raw_type = TObject | TArray | TMap | TSet | TWeakMap | TWeakSet | TOther


text \<open>
  Objects are addressed by numbers. A key of a dependency map is a property name or a
  symbol; the two symbols the module creates itself have constructors of their own.
\<close>

type_synonym addr = nat
type_synonym eff = nat
type_synonym depid = nat

datatype key = KStr string | KSym nat | ITERATE_KEY | MAP_KEY_ITERATE_KEY

datatype TriggerOpType = SET | ADD | DELETE | CLEAR

text \<open>
  A \<open>Dep\<close> is a set of effects, kept in insertion order as a JavaScript \<open>Set\<close> keeps it,
  with the two bitmaps \<open>w\<close> and \<open>n\<close> (32-bit integers under the bit operations).
\<close>

record dep =
  subs :: "eff list"
  dep_w :: "32 word"
  dep_n :: "32 word"

text \<open>
  A \<open>ReactiveEffect\<close>: the fields the module reads. \<open>computed\<close> and \<open>scheduler\<close> say
  whether the field is set. What the wrapped function does is given to \<open>run\<close> as the
  list of the reads it performs.
\<close>

record effect =
  active :: bool
  deps :: "depid list"
  computed :: bool
  allowRecurse :: bool
  scheduler :: bool

text \<open>A call that \<open>triggerEffect\<close> makes: \<open>effect.scheduler()\<close> or \<open>effect.run()\<close>.\<close>

datatype invocation = Scheduler eff | Run eff

text \<open>
  The module state. The \<open>Dep\<close> objects live in a store and are shared by reference
  between the dependency maps and the \<open>deps\<close> arrays of the effects. The chain of
  \<open>parent\<close> pointers that starts at \<open>activeEffect\<close> is the list \<open>activeStack\<close>, the
  active effect first.
\<close>

record estate =
  dep_store :: "dep list"
  targetMap :: "addr \<Rightarrow> (key \<times> depid) list option"
  effects :: "eff \<Rightarrow> effect"
  activeStack :: "eff list"
  shouldTrack :: bool
  trackStack :: "bool list"
  effectTrackDepth :: nat
  trackOpBit :: "32 word"
  invoked :: "invocation list"

definition maxMarkerBits :: nat where
  "maxMarkerBits = 30"

definition activeEffect :: "estate \<Rightarrow> eff option" where
  "activeEffect s = (case activeStack s of [] \<Rightarrow> None | e # _ \<Rightarrow> Some e)"

text \<open>\<open>1 << k\<close> on 32-bit integers: the shift count is taken modulo 32.\<close>

definition shl1 :: "nat \<Rightarrow> 32 word" where
  "shl1 k = push_bit (k mod 32) 1"

definition createDep :: "eff list \<Rightarrow> dep" where
  "createDep es = \<lparr>subs = set_spread es, dep_w = 0, dep_n = 0\<rparr>"

definition wasTracked :: "estate \<Rightarrow> dep \<Rightarrow> bool" where
  "wasTracked s d = (0 <s (dep_w d AND trackOpBit s))"

definition newTracked :: "estate \<Rightarrow> dep \<Rightarrow> bool" where
  "newTracked s d = (0 <s (dep_n d AND trackOpBit s))"

definition update_dep :: "estate \<Rightarrow> depid \<Rightarrow> (dep \<Rightarrow> dep) \<Rightarrow> estate" where
  "update_dep s i f = s\<lparr>dep_store := (dep_store s)[i := f (dep_store s ! i)]\<rparr>"

definition initDepMarkers :: "estate \<Rightarrow> eff \<Rightarrow> estate" where
  "initDepMarkers s e =
     foldl (\<lambda>t i. update_dep t i (\<lambda>d. d\<lparr>dep_w := dep_w d OR trackOpBit t\<rparr>)) s (deps (effects s e))"

text \<open>\<open>Set.add\<close> and \<open>Set.delete\<close>.\<close>

definition set_add :: "'a list \<Rightarrow> 'a \<Rightarrow> 'a list" where
  "set_add xs x = (if x \<in> set xs then xs else xs @ [x])"

definition set_delete :: "'a list \<Rightarrow> 'a \<Rightarrow> 'a list" where
  "set_delete xs x = filter (\<lambda>y. y \<noteq> x) xs"

text \<open>
  The loop of \<open>finalizeDepMarkers\<close> over \<open>deps\<close>: it returns the entries it keeps (the
  ones written back at \<open>ptr\<close>) and the state with the sets and bitmaps updated.
\<close>

fun finalize_loop :: "estate \<Rightarrow> eff \<Rightarrow> depid list \<Rightarrow> depid list \<times> estate" where
  "finalize_loop s e [] = ([], s)"
| "finalize_loop s e (i # is) =
     (let d = dep_store s ! i;
          drop_it = (wasTracked s d \<and> \<not> newTracked s d);
          s1 = (if drop_it then update_dep s i (\<lambda>d. d\<lparr>subs := set_delete (subs d) e\<rparr>) else s);
          s2 = update_dep s1 i (\<lambda>d. d\<lparr>dep_w := dep_w d AND NOT (trackOpBit s1),
                                       dep_n := dep_n d AND NOT (trackOpBit s1)\<rparr>);
          (kept, s3) = finalize_loop s2 e is
      in (if drop_it then kept else i # kept, s3))"

definition set_deps :: "estate \<Rightarrow> eff \<Rightarrow> depid list \<Rightarrow> estate" where
  "set_deps s e ds = s\<lparr>effects := (effects s)(e := (effects s e)\<lparr>deps := ds\<rparr>)\<rparr>"

definition finalizeDepMarkers :: "estate \<Rightarrow> eff \<Rightarrow> estate" where
  "finalizeDepMarkers s e =
     (let (kept, s1) = finalize_loop s e (deps (effects s e)) in set_deps s1 e kept)"

definition cleanupEffect :: "estate \<Rightarrow> eff \<Rightarrow> estate" where
  "cleanupEffect s e =
     set_deps
       (foldl (\<lambda>t i. update_dep t i (\<lambda>d. d\<lparr>subs := set_delete (subs d) e\<rparr>)) s (deps (effects s e)))
       e []"

text \<open>\<open>trackEffects\<close>, for the active effect \<open>e\<close> that its callers have checked.\<close>

definition add_sub :: "estate \<Rightarrow> eff \<Rightarrow> depid \<Rightarrow> estate" where
  "add_sub s e i =
     set_deps (update_dep s i (\<lambda>d. d\<lparr>subs := set_add (subs d) e\<rparr>)) e (deps (effects s e) @ [i])"

definition trackEffects :: "estate \<Rightarrow> eff \<Rightarrow> depid \<Rightarrow> estate" where
  "trackEffects s e i =
     (let d = dep_store s ! i in
      if effectTrackDepth s \<le> maxMarkerBits then
        if \<not> newTracked s d then
          (let s1 = update_dep s i (\<lambda>d. d\<lparr>dep_n := dep_n d OR trackOpBit s\<rparr>)
           in if \<not> wasTracked s d then add_sub s1 e i else s1)
        else s
      else if e \<notin> set (subs d) then add_sub s e i else s)"

definition track :: "estate \<Rightarrow> addr \<Rightarrow> key \<Rightarrow> estate" where
  "track s target k =
     (case activeEffect s of
        None \<Rightarrow> s
      | Some e \<Rightarrow>
          if shouldTrack s then
            (let depsMap = (case targetMap s target of None \<Rightarrow> [] | Some m \<Rightarrow> m) in
             case map_of depsMap k of
               Some i \<Rightarrow> trackEffects s e i
             | None \<Rightarrow>
                 (let i = length (dep_store s);
                      s1 = s\<lparr>dep_store := dep_store s @ [createDep []],
                             targetMap := (targetMap s)(target \<mapsto> depsMap @ [(k, i)])\<rparr>
                  in trackEffects s1 e i))
          else s)"

text \<open>
  \<open>ReactiveEffect.run\<close>. The wrapped function is the list of the reads it makes; each is
  a call of \<open>track\<close>. The function does not stop its own effect, so the deferred stop
  at the end of \<open>run\<close> does not arise.
\<close>

definition run_fn :: "estate \<Rightarrow> (addr \<times> key) list \<Rightarrow> estate" where
  "run_fn s reads = foldl (\<lambda>t (target, k). track t target k) s reads"

definition run :: "estate \<Rightarrow> eff \<Rightarrow> (addr \<times> key) list \<Rightarrow> estate" where
  "run s e reads =
     (if \<not> active (effects s e) then run_fn s reads
      else if e \<in> set (activeStack s) then s
      else
        (let lastShouldTrack = shouldTrack s;
             s1 = s\<lparr>activeStack := e # activeStack s, shouldTrack := True,
                    effectTrackDepth := effectTrackDepth s + 1,
                    trackOpBit := shl1 (effectTrackDepth s + 1)\<rparr>;
             s2 = (if effectTrackDepth s1 \<le> maxMarkerBits
                   then initDepMarkers s1 e else cleanupEffect s1 e);
             s3 = run_fn s2 reads;
             s4 = (if effectTrackDepth s3 \<le> maxMarkerBits then finalizeDepMarkers s3 e else s3)
         in s4\<lparr>effectTrackDepth := effectTrackDepth s4 - 1,
                trackOpBit := shl1 (effectTrackDepth s4 - 1),
                activeStack := tl (activeStack s4),
                shouldTrack := lastShouldTrack\<rparr>))"

text \<open>\<open>triggerEffect\<close> and \<open>triggerEffects\<close> (packages/reactivity/src/effect.js): the
  effects of a computed value first, then the others.\<close>

definition triggerEffect :: "estate \<Rightarrow> eff \<Rightarrow> estate" where
  "triggerEffect s e =
     (if Some e \<noteq> activeEffect s \<or> allowRecurse (effects s e) then
        s\<lparr>invoked := invoked s @ [if scheduler (effects s e) then Scheduler e else Run e]\<rparr>
      else s)"

definition triggerEffects :: "estate \<Rightarrow> eff list \<Rightarrow> estate" where
  "triggerEffects s es =
     (let s1 = foldl (\<lambda>t e. if computed (effects t e) then triggerEffect t e else t) s es
      in foldl (\<lambda>t e. if \<not> computed (effects t e) then triggerEffect t e else t) s1 es)"

text \<open>\<open>triggerEffects\<close> of src/reactivity/effect.js: one loop, in the order of the set.\<close>

definition triggerEffects_legacy :: "estate \<Rightarrow> eff list \<Rightarrow> estate" where
  "triggerEffects_legacy s es = foldl triggerEffect s es"










definition init_estate :: estate where
  "init_estate = \<lparr>dep_store = [], targetMap = (\<lambda>_. None),
     effects = (\<lambda>_. \<lparr>active = True, deps = [], computed = False, allowRecurse = False, scheduler = False\<rparr>),
     activeStack = [], shouldTrack = True, trackStack = [], effectTrackDepth = 0,
     trackOpBit = 1, invoked = []\<rparr>"


subsection \<open>Subscriptions\<close>

definition lookup :: "estate \<Rightarrow> addr \<Rightarrow> key \<Rightarrow> depid option" where
  "lookup s target k = (case targetMap s target of None \<Rightarrow> None | Some m \<Rightarrow> map_of m k)"

definition subscribed :: "estate \<Rightarrow> eff \<Rightarrow> addr \<Rightarrow> key \<Rightarrow> bool" where
  "subscribed s e target k =
     (case lookup s target k of None \<Rightarrow> False | Some i \<Rightarrow> e \<in> set (subs (dep_store s ! i)))"

definition marked :: "32 word \<Rightarrow> 32 word \<Rightarrow> bool" where
  "marked x b = (0 <s (x AND b))"

lemma shl1_pos_all: "\<forall>d \<in> set [1..<31]. 0 <s shl1 d"
  by code_simp

lemma shl1_pos: "1 \<le> d \<Longrightarrow> d \<le> 30 \<Longrightarrow> 0 <s shl1 d"
  using shl1_pos_all by simp

lemma marked_or [simp]: "0 <s b \<Longrightarrow> marked (x OR b) b"
  by (simp add: marked_def)

lemma marked_and_not [simp]: "\<not> marked (x AND NOT b) b"
  by (simp add: marked_def word_bw_assocs(1))

lemma marked_zero [simp]: "\<not> marked 0 b"
  by (simp add: marked_def)

lemma wasTracked_marked: "wasTracked s d = marked (dep_w d) (trackOpBit s)"
  by (simp add: wasTracked_def marked_def)

lemma newTracked_marked: "newTracked s d = marked (dep_n d) (trackOpBit s)"
  by (simp add: newTracked_def marked_def)

lemma set_add_set [simp]: "set (set_add xs x) = insert x (set xs)"
  by (auto simp: set_add_def)

lemma set_delete_set [simp]: "set (set_delete xs x) = set xs - {x}"
  by (auto simp: set_delete_def)

lemma set_add_distinct [simp]: "distinct xs \<Longrightarrow> distinct (set_add xs x)"
  by (simp add: set_add_def)

lemma set_delete_distinct [simp]: "distinct xs \<Longrightarrow> distinct (set_delete xs x)"
  by (simp add: set_delete_def)

subsection \<open>Field lemmas\<close>

lemma update_dep_fields [simp]:
  "targetMap (update_dep s i f) = targetMap s"
  "effects (update_dep s i f) = effects s"
  "activeStack (update_dep s i f) = activeStack s"
  "shouldTrack (update_dep s i f) = shouldTrack s"
  "trackStack (update_dep s i f) = trackStack s"
  "effectTrackDepth (update_dep s i f) = effectTrackDepth s"
  "trackOpBit (update_dep s i f) = trackOpBit s"
  "invoked (update_dep s i f) = invoked s"
  "length (dep_store (update_dep s i f)) = length (dep_store s)"
  by (simp_all add: update_dep_def)

lemma update_dep_nth:
  "j < length (dep_store s) \<Longrightarrow>
   dep_store (update_dep s i f) ! j = (if j = i then f (dep_store s ! i) else dep_store s ! j)"
  by (simp add: update_dep_def nth_list_update)

lemma set_deps_fields [simp]:
  "targetMap (set_deps s e ds) = targetMap s"
  "dep_store (set_deps s e ds) = dep_store s"
  "activeStack (set_deps s e ds) = activeStack s"
  "shouldTrack (set_deps s e ds) = shouldTrack s"
  "trackStack (set_deps s e ds) = trackStack s"
  "effectTrackDepth (set_deps s e ds) = effectTrackDepth s"
  "trackOpBit (set_deps s e ds) = trackOpBit s"
  "invoked (set_deps s e ds) = invoked s"
  "deps (effects (set_deps s e ds) e) = ds"
  "active (effects (set_deps s e ds) e') = active (effects s e')"
  "computed (effects (set_deps s e ds) e') = computed (effects s e')"
  "allowRecurse (effects (set_deps s e ds) e') = allowRecurse (effects s e')"
  "scheduler (effects (set_deps s e ds) e') = scheduler (effects s e')"
  by (simp_all add: set_deps_def)

lemma lookup_update_dep [simp]: "lookup (update_dep s i f) = lookup s"
  by (simp add: lookup_def fun_eq_iff)

lemma lookup_set_deps [simp]: "lookup (set_deps s e ds) = lookup s"
  by (simp add: lookup_def fun_eq_iff)

subsection \<open>initDepMarkers\<close>

lemma init_loop_fields:
  fixes s ds
  defines "t \<equiv> foldl (\<lambda>t i. update_dep t i (\<lambda>d. d\<lparr>dep_w := dep_w d OR trackOpBit t\<rparr>)) s ds"
  shows "targetMap t = targetMap s" "effects t = effects s" "activeStack t = activeStack s"
    "shouldTrack t = shouldTrack s" "trackStack t = trackStack s"
    "effectTrackDepth t = effectTrackDepth s" "trackOpBit t = trackOpBit s"
    "invoked t = invoked s" "length (dep_store t) = length (dep_store s)"
  unfolding t_def by (induction ds arbitrary: s, simp_all)

lemma init_loop_nth:
  fixes s ds
  defines "t \<equiv> foldl (\<lambda>t i. update_dep t i (\<lambda>d. d\<lparr>dep_w := dep_w d OR trackOpBit t\<rparr>)) s ds"
  assumes "j < length (dep_store s)"
  shows "dep_store t ! j =
     (if j \<in> set ds then (dep_store s ! j)\<lparr>dep_w := dep_w (dep_store s ! j) OR trackOpBit s\<rparr>
      else dep_store s ! j)"
  using assms(2) unfolding t_def
proof (induction ds arbitrary: s)
  case Nil
  then show ?case by simp
next
  case (Cons i ds)
  define s1 where "s1 = update_dep s i (\<lambda>d. d\<lparr>dep_w := dep_w d OR trackOpBit s\<rparr>)"
  have j: "j < length (dep_store s1)" using Cons.prems by (simp add: s1_def)
  have "dep_store s1 ! j = (if j = i then (dep_store s ! j)\<lparr>dep_w := dep_w (dep_store s ! j) OR trackOpBit s\<rparr>
       else dep_store s ! j)"
    using Cons.prems by (simp add: s1_def update_dep_nth)
  moreover have "trackOpBit s1 = trackOpBit s" by (simp add: s1_def)
  moreover have "foldl (\<lambda>t i. update_dep t i (\<lambda>d. d\<lparr>dep_w := dep_w d OR trackOpBit t\<rparr>)) s (i # ds)
      = foldl (\<lambda>t i. update_dep t i (\<lambda>d. d\<lparr>dep_w := dep_w d OR trackOpBit t\<rparr>)) s1 ds"
    by (simp add: s1_def)
  ultimately show ?case
    using Cons.IH [OF j] by (cases "j = i"; cases "j \<in> set ds"; simp add: word_bw_assocs)
qed


subsection \<open>finalizeDepMarkers\<close>

definition fin_dep :: "32 word \<Rightarrow> eff \<Rightarrow> dep \<Rightarrow> dep" where
  "fin_dep b e d =
     d\<lparr>subs := (if marked (dep_w d) b \<and> \<not> marked (dep_n d) b then set_delete (subs d) e else subs d),
       dep_w := dep_w d AND NOT b, dep_n := dep_n d AND NOT b\<rparr>"

definition dropped :: "estate \<Rightarrow> depid \<Rightarrow> bool" where
  "dropped s i = (marked (dep_w (dep_store s ! i)) (trackOpBit s) \<and>
                  \<not> marked (dep_n (dep_store s ! i)) (trackOpBit s))"

lemma update_dep_twice:
  "update_dep (update_dep s i f) i g = update_dep s i (g \<circ> f)"
  by (cases "i < length (dep_store s)") (simp_all add: update_dep_def list_update_beyond)

lemma finalize_step:
  "finalize_loop s e (i # is) =
     (let r = finalize_loop (update_dep s i (fin_dep (trackOpBit s) e)) e is
      in (if dropped s i then fst r else i # fst r, snd r))"
proof (cases "dropped s i")
  case True
  then have m: "marked (dep_w (dep_store s ! i)) (trackOpBit s)"
      "\<not> marked (dep_n (dep_store s ! i)) (trackOpBit s)"
    by (simp_all add: dropped_def)
  have "update_dep (update_dep s i (\<lambda>d. d\<lparr>subs := set_delete (subs d) e\<rparr>)) i
          (\<lambda>d. d\<lparr>dep_w := dep_w d AND NOT (trackOpBit s), dep_n := dep_n d AND NOT (trackOpBit s)\<rparr>)
        = update_dep s i (fin_dep (trackOpBit s) e)"
    using m by (cases "i < length (dep_store s)")
       (auto simp: update_dep_def fin_dep_def list_update_beyond)
  then show ?thesis
    using True m by (simp add: Let_def wasTracked_marked newTracked_marked split: prod.split)
next
  case False
  then have m: "\<not> (marked (dep_w (dep_store s ! i)) (trackOpBit s) \<and>
      \<not> marked (dep_n (dep_store s ! i)) (trackOpBit s))"
    by (simp add: dropped_def)
  have "update_dep s i
          (\<lambda>d. d\<lparr>dep_w := dep_w d AND NOT (trackOpBit s), dep_n := dep_n d AND NOT (trackOpBit s)\<rparr>)
        = update_dep s i (fin_dep (trackOpBit s) e)"
    using m by (cases "i < length (dep_store s)")
       (auto simp: update_dep_def fin_dep_def list_update_beyond)
  then show ?thesis
    using False m by (auto simp: Let_def wasTracked_marked newTracked_marked split: prod.split)
qed

lemma finalize_loop_fields:
  fixes s e "is"
  defines "t \<equiv> snd (finalize_loop s e is)"
  shows "targetMap t = targetMap s" "effects t = effects s" "activeStack t = activeStack s"
    "shouldTrack t = shouldTrack s" "trackStack t = trackStack s"
    "effectTrackDepth t = effectTrackDepth s" "trackOpBit t = trackOpBit s"
    "invoked t = invoked s" "length (dep_store t) = length (dep_store s)"
  unfolding t_def
  by (induction "is" arbitrary: s, simp_all add: finalize_step Let_def del: finalize_loop.simps(2))

lemma finalize_loop_nth:
  assumes "distinct is" "j < length (dep_store s)"
  shows "dep_store (snd (finalize_loop s e is)) ! j =
     (if j \<in> set is then fin_dep (trackOpBit s) e (dep_store s ! j) else dep_store s ! j)"
  using assms
proof (induction "is" arbitrary: s)
  case Nil
  then show ?case by simp
next
  case (Cons i "is")
  define s1 where "s1 = update_dep s i (fin_dep (trackOpBit s) e)"
  have j: "j < length (dep_store s1)" using Cons.prems by (simp add: s1_def)
  have d: "distinct is" "i \<notin> set is" using Cons.prems by simp_all
  have "dep_store s1 ! j = (if j = i then fin_dep (trackOpBit s) e (dep_store s ! j) else dep_store s ! j)"
    using Cons.prems by (simp add: s1_def update_dep_nth)
  moreover have "trackOpBit s1 = trackOpBit s" by (simp add: s1_def)
  moreover have "snd (finalize_loop s e (i # is)) = snd (finalize_loop s1 e is)"
    by (simp add: finalize_step Let_def s1_def del: finalize_loop.simps(2))
  ultimately show ?case
    using Cons.IH [OF d(1) j] d(2) by (cases "j = i"; cases "j \<in> set is"; simp)
qed

lemma finalize_loop_kept:
  assumes "distinct is" "\<forall>i \<in> set is. i < length (dep_store s)"
  shows "fst (finalize_loop s e is) = filter (\<lambda>i. \<not> dropped s i) is"
  using assms
proof (induction "is" arbitrary: s)
  case Nil
  then show ?case by simp
next
  case (Cons i "is")
  define s1 where "s1 = update_dep s i (fin_dep (trackOpBit s) e)"
  have d: "distinct is" "i \<notin> set is" using Cons.prems by simp_all
  have v: "\<forall>k \<in> set is. k < length (dep_store s1)" using Cons.prems by (simp add: s1_def)
  have same: "dropped s1 k = dropped s k" if "k \<in> set is" for k
  proof -
    have "k \<noteq> i" "k < length (dep_store s)" using that d Cons.prems by auto
    then show ?thesis by (simp add: dropped_def s1_def update_dep_nth)
  qed
  have "fst (finalize_loop s e (i # is)) =
        (if dropped s i then fst (finalize_loop s1 e is) else i # fst (finalize_loop s1 e is))"
    by (simp add: finalize_step Let_def s1_def del: finalize_loop.simps(2))
  moreover have "filter (\<lambda>k. \<not> dropped s1 k) is = filter (\<lambda>k. \<not> dropped s k) is"
    by (rule filter_cong) (simp_all add: same)
  ultimately show ?case using Cons.IH [OF d(1) v] by simp
qed


subsection \<open>track\<close>

definition map_ok :: "estate \<Rightarrow> bool" where
  "map_ok s \<longleftrightarrow>
     (\<forall>t k i. lookup s t k = Some i \<longrightarrow> i < length (dep_store s)) \<and>
     (\<forall>t k t' k' i. lookup s t k = Some i \<longrightarrow> lookup s t' k' = Some i \<longrightarrow> t = t' \<and> k = k')"

definition ensure_dep :: "estate \<Rightarrow> addr \<Rightarrow> key \<Rightarrow> depid \<times> estate" where
  "ensure_dep s target k =
     (let depsMap = (case targetMap s target of None \<Rightarrow> [] | Some m \<Rightarrow> m) in
      case map_of depsMap k of
        Some i \<Rightarrow> (i, s)
      | None \<Rightarrow> (length (dep_store s),
          s\<lparr>dep_store := dep_store s @ [createDep []],
            targetMap := (targetMap s)(target \<mapsto> depsMap @ [(k, length (dep_store s))])\<rparr>))"

lemma track_ensure:
  "activeEffect s = Some e \<Longrightarrow> shouldTrack s \<Longrightarrow>
   track s target k = trackEffects (snd (ensure_dep s target k)) e (fst (ensure_dep s target k))"
  by (simp add: track_def ensure_dep_def Let_def split: option.split)

lemma ensure_dep_old:
  "lookup s target k = Some i \<Longrightarrow> ensure_dep s target k = (i, s)"
  by (auto simp: ensure_dep_def lookup_def Let_def split: option.splits)

lemma ensure_dep_new:
  assumes "lookup s target k = None"
  shows "fst (ensure_dep s target k) = length (dep_store s)"
    and "dep_store (snd (ensure_dep s target k)) = dep_store s @ [createDep []]"
    and "lookup (snd (ensure_dep s target k)) t' k' =
           (if t' = target \<and> k' = k then Some (length (dep_store s)) else lookup s t' k')"
  using assms
  by (auto simp: ensure_dep_def lookup_def Let_def map_add_def split: option.splits)

lemma ensure_dep_fields [simp]:
  "effects (snd (ensure_dep s target k)) = effects s"
  "activeStack (snd (ensure_dep s target k)) = activeStack s"
  "shouldTrack (snd (ensure_dep s target k)) = shouldTrack s"
  "trackStack (snd (ensure_dep s target k)) = trackStack s"
  "effectTrackDepth (snd (ensure_dep s target k)) = effectTrackDepth s"
  "trackOpBit (snd (ensure_dep s target k)) = trackOpBit s"
  "invoked (snd (ensure_dep s target k)) = invoked s"
  by (simp_all add: ensure_dep_def Let_def split: option.split)

lemma ensure_dep_props_conj:
  fixes s target k
  assumes "map_ok s"
  defines "i \<equiv> fst (ensure_dep s target k)" and "s1 \<equiv> snd (ensure_dep s target k)"
  shows "map_ok s1 \<and> i < length (dep_store s1) \<and> lookup s1 target k = Some i \<and>
    (\<forall>t' k'. lookup s t' k' \<noteq> None \<longrightarrow> lookup s1 t' k' = lookup s t' k') \<and>
    (\<forall>t' k' j. lookup s1 t' k' = Some j \<longrightarrow> j \<noteq> i \<longrightarrow> lookup s t' k' = Some j) \<and>
    (\<forall>j. j < length (dep_store s) \<longrightarrow> dep_store s1 ! j = dep_store s ! j) \<and>
    length (dep_store s) \<le> length (dep_store s1) \<and>
    (lookup s target k = None \<longrightarrow> dep_store s1 ! i = createDep [] \<and> i = length (dep_store s)) \<and>
    (lookup s target k \<noteq> None \<longrightarrow> s1 = s)"
proof (cases "lookup s target k")
  case None
  note n = ensure_dep_new [OF None]
  have "map_ok s1" using assms(1) unfolding map_ok_def s1_def n
    by (auto simp: less_Suc_eq split: if_splits)
  then show ?thesis using None
    by (auto simp: s1_def i_def n nth_append split: if_splits)
next
  case (Some j)
  note o = ensure_dep_old [OF Some]
  show ?thesis using assms(1) Some by (auto simp: i_def s1_def o map_ok_def)
qed

lemma ensure_dep_props:
  fixes s target k
  assumes "map_ok s"
  defines "i \<equiv> fst (ensure_dep s target k)" and "s1 \<equiv> snd (ensure_dep s target k)"
  shows "map_ok s1" "i < length (dep_store s1)" "lookup s1 target k = Some i"
    and "\<And>t' k'. lookup s t' k' \<noteq> None \<Longrightarrow> lookup s1 t' k' = lookup s t' k'"
    and "\<And>t' k' j. lookup s1 t' k' = Some j \<Longrightarrow> j \<noteq> i \<Longrightarrow> lookup s t' k' = Some j"
    and "\<And>j. j < length (dep_store s) \<Longrightarrow> dep_store s1 ! j = dep_store s ! j"
    and "length (dep_store s) \<le> length (dep_store s1)"
    and "lookup s target k = None \<Longrightarrow> dep_store s1 ! i = createDep [] \<and> i = length (dep_store s)"
    and "lookup s target k \<noteq> None \<Longrightarrow> s1 = s"
  using ensure_dep_props_conj [where s=s and target=target and k=k, OF assms(1)]
  unfolding i_def s1_def by blast+


subsection \<open>The invariant of a run that uses the markers\<close>

definition dep_ok :: "eff \<Rightarrow> 32 word \<Rightarrow> (addr \<times> key) set \<Rightarrow> estate \<Rightarrow> depid \<Rightarrow> bool" where
  "dep_ok e b R t i \<longleftrightarrow>
     (marked (dep_n (dep_store t ! i)) b \<longleftrightarrow> (\<exists>p \<in> R. lookup t (fst p) (snd p) = Some i)) \<and>
     (e \<in> set (subs (dep_store t ! i)) \<longleftrightarrow>
        marked (dep_w (dep_store t ! i)) b \<or> marked (dep_n (dep_store t ! i)) b) \<and>
     (i \<in> set (deps (effects t e)) \<longleftrightarrow>
        marked (dep_w (dep_store t ! i)) b \<or> marked (dep_n (dep_store t ! i)) b) \<and>
     distinct (subs (dep_store t ! i))"

definition tracking :: "eff \<Rightarrow> 32 word \<Rightarrow> (addr \<times> key) set \<Rightarrow> estate \<Rightarrow> bool" where
  "tracking e b R t \<longleftrightarrow>
     activeEffect t = Some e \<and> shouldTrack t \<and> trackOpBit t = b \<and>
     effectTrackDepth t \<le> maxMarkerBits \<and> map_ok t \<and>
     distinct (deps (effects t e)) \<and>
     (\<forall>i \<in> set (deps (effects t e)). i < length (dep_store t)) \<and>
     (\<forall>i < length (dep_store t). dep_ok e b R t i) \<and>
     (\<forall>p \<in> R. lookup t (fst p) (snd p) \<noteq> None)"

lemma tracking_ensure_dep:
  assumes "tracking e b R t"
  shows "tracking e b R (snd (ensure_dep t target k))"
proof -
  define i where "i = fst (ensure_dep t target k)"
  define s1 where "s1 = snd (ensure_dep t target k)"
  have mo: "map_ok t" using assms by (simp add: tracking_def)
  note ep = ensure_dep_props [where s=t and target=target and k=k, OF mo, folded i_def s1_def]
  have R: "\<forall>p \<in> R. lookup t (fst p) (snd p) \<noteq> None" using assms by (simp add: tracking_def)
  have valid: "\<forall>j \<in> set (deps (effects t e)). j < length (dep_store t)"
    using assms by (simp add: tracking_def)
  have lk: "lookup s1 (fst p) (snd p) = lookup t (fst p) (snd p)" if "p \<in> R" for p
    using R that ep(4) by blast
  have "dep_ok e b R s1 j" if j: "j < length (dep_store s1)" for j
  proof (cases "j < length (dep_store t)")
    case True
    then have "dep_ok e b R t j" using assms by (simp add: tracking_def)
    moreover have "dep_store s1 ! j = dep_store t ! j" using True ep(6) by simp
    moreover have "effects s1 = effects t" by (simp add: s1_def)
    ultimately show ?thesis using lk by (simp add: dep_ok_def)
  next
    case False
    then have neq: "s1 \<noteq> t" using j by auto
    then have none: "lookup t target k = None" using ep(9) by blast
    then have new: "dep_store s1 ! i = createDep []" "i = length (dep_store t)" using ep(8) by blast+
    have "length (dep_store s1) = Suc (length (dep_store t))"
      using ensure_dep_new(2) [OF none] by (simp add: s1_def)
    then have ji: "j = i" using False j new(2) by simp
    have "\<not> (\<exists>p \<in> R. lookup s1 (fst p) (snd p) = Some i)"
    proof
      assume "\<exists>p \<in> R. lookup s1 (fst p) (snd p) = Some i"
      then obtain p where p: "p \<in> R" "lookup t (fst p) (snd p) = Some i" using lk by auto
      then have "i < length (dep_store t)" using mo by (auto simp: map_ok_def)
      with new(2) show False by simp
    qed
    moreover have "i \<notin> set (deps (effects s1 e))"
      using valid new(2) by (auto simp: s1_def)
    ultimately show ?thesis
      using new(1) by (simp add: dep_ok_def ji createDep_def set_spread_def)
  qed
  moreover have "\<forall>j \<in> set (deps (effects s1 e)). j < length (dep_store s1)"
    using valid ep(7) by (auto simp: s1_def)
  moreover have "\<forall>p \<in> R. lookup s1 (fst p) (snd p) \<noteq> None" using lk R by simp
  ultimately show ?thesis
    using assms ep(1) unfolding tracking_def s1_def [symmetric]
    by (simp add: s1_def activeEffect_def)
qed


lemma add_sub_fields [simp]:
  "targetMap (add_sub s e i) = targetMap s"
  "activeStack (add_sub s e i) = activeStack s"
  "shouldTrack (add_sub s e i) = shouldTrack s"
  "trackStack (add_sub s e i) = trackStack s"
  "effectTrackDepth (add_sub s e i) = effectTrackDepth s"
  "trackOpBit (add_sub s e i) = trackOpBit s"
  "invoked (add_sub s e i) = invoked s"
  "deps (effects (add_sub s e i) e) = deps (effects s e) @ [i]"
  "length (dep_store (add_sub s e i)) = length (dep_store s)"
  "lookup (add_sub s e i) = lookup s"
  by (simp_all add: add_sub_def)

lemma add_sub_nth:
  "j < length (dep_store s) \<Longrightarrow>
   dep_store (add_sub s e i) ! j =
     (if j = i then (dep_store s ! i)\<lparr>subs := set_add (subs (dep_store s ! i)) e\<rparr> else dep_store s ! j)"
  by (simp add: add_sub_def update_dep_nth)

lemma trackEffects_marker:
  assumes "effectTrackDepth s \<le> maxMarkerBits"
  shows "trackEffects s e i =
     (if marked (dep_n (dep_store s ! i)) (trackOpBit s) then s
      else if marked (dep_w (dep_store s ! i)) (trackOpBit s)
        then update_dep s i (\<lambda>d. d\<lparr>dep_n := dep_n d OR trackOpBit s\<rparr>)
        else add_sub (update_dep s i (\<lambda>d. d\<lparr>dep_n := dep_n d OR trackOpBit s\<rparr>)) e i)"
  using assms by (simp add: trackEffects_def Let_def wasTracked_marked newTracked_marked)

lemma map_ok_cong:
  "lookup s' = lookup s \<Longrightarrow> length (dep_store s') = length (dep_store s) \<Longrightarrow>
   map_ok s' = map_ok s"
  by (simp add: map_ok_def)

lemma tracking_trackEffects:
  assumes inv: "tracking e b R s" and lk: "lookup s target k = Some i" and pos: "0 <s b"
  shows "tracking e b (insert (target, k) R) (trackEffects s e i)"
proof -
  have st: "activeEffect s = Some e" "shouldTrack s" "trackOpBit s = b"
      "effectTrackDepth s \<le> maxMarkerBits" "map_ok s"
    and dd: "distinct (deps (effects s e))"
    and valid: "\<forall>j \<in> set (deps (effects s e)). j < length (dep_store s)"
    and ok: "\<And>j. j < length (dep_store s) \<Longrightarrow> dep_ok e b R s j"
    and R: "\<forall>p \<in> R. lookup s (fst p) (snd p) \<noteq> None"
    using inv by (simp_all add: tracking_def)
  have i: "i < length (dep_store s)" using st(5) lk by (auto simp: map_ok_def)
  have other: "(\<exists>p \<in> insert (target, k) R. lookup s (fst p) (snd p) = Some j)
      \<longleftrightarrow> (\<exists>p \<in> R. lookup s (fst p) (snd p) = Some j)" if "j \<noteq> i" for j
    using that lk by auto
  have here: "\<exists>p \<in> insert (target, k) R. lookup s (fst p) (snd p) = Some i"
    using lk by auto
  have R': "\<forall>p \<in> insert (target, k) R. lookup s (fst p) (snd p) \<noteq> None"
    using R lk by auto
  note oki = ok [OF i, unfolded dep_ok_def]
  show ?thesis
  proof (cases "marked (dep_n (dep_store s ! i)) b")
    case True
    then have eq: "trackEffects s e i = s" using st by (simp add: trackEffects_marker)
    have "dep_ok e b (insert (target, k) R) s j" if "j < length (dep_store s)" for j
      using ok [OF that] other [of j] here True unfolding dep_ok_def by (cases "j = i") auto
    then show ?thesis using st dd valid R' unfolding eq tracking_def by simp
  next
    case nN: False
    define s1 where "s1 = update_dep s i (\<lambda>d. d\<lparr>dep_n := dep_n d OR b\<rparr>)"
    have f1: "effects s1 = effects s" "lookup s1 = lookup s"
        "length (dep_store s1) = length (dep_store s)" "activeStack s1 = activeStack s"
        "shouldTrack s1 = shouldTrack s" "trackOpBit s1 = trackOpBit s"
        "effectTrackDepth s1 = effectTrackDepth s"
      by (simp_all add: s1_def)
    have s1i: "dep_store s1 ! i = (dep_store s ! i)\<lparr>dep_n := dep_n (dep_store s ! i) OR b\<rparr>"
      using i by (simp add: s1_def update_dep_nth)
    have s1j: "dep_store s1 ! j = dep_store s ! j" if "j < length (dep_store s)" "j \<noteq> i" for j
      using that by (simp add: s1_def update_dep_nth)
    show ?thesis
    proof (cases "marked (dep_w (dep_store s ! i)) b")
      case True
      then have eq: "trackEffects s e i = s1" using st nN by (simp add: trackEffects_marker s1_def)
      have "dep_ok e b (insert (target, k) R) s1 j" if "j < length (dep_store s1)" for j
      proof (cases "j = i")
        case True
        then show ?thesis
          using oki here pos \<open>marked (dep_w (dep_store s ! i)) b\<close>
          by (simp add: dep_ok_def s1i f1)
      next
        case False
        have jl: "j < length (dep_store s)" using that by (simp add: f1)
        show ?thesis
          using ok [OF jl] other [OF False] by (simp add: dep_ok_def s1j [OF jl False] f1)
      qed
      moreover have "map_ok s1" using st(5) map_ok_cong [OF f1(2,3)] by simp
      ultimately show ?thesis using st dd valid R' unfolding eq tracking_def
        by (simp add: f1 activeEffect_def)
    next
      case nW: False
      define s2 where "s2 = add_sub s1 e i"
      have eq: "trackEffects s e i = s2"
        using st nN nW by (simp add: trackEffects_marker s1_def s2_def)
      have notin: "i \<notin> set (deps (effects s e))" using oki nN nW by simp
      have f2: "lookup s2 = lookup s"
        "length (dep_store s2) = length (dep_store s)" "activeStack s2 = activeStack s"
        "shouldTrack s2 = shouldTrack s" "trackOpBit s2 = trackOpBit s"
        "effectTrackDepth s2 = effectTrackDepth s"
        "deps (effects s2 e) = deps (effects s e) @ [i]"
        by (simp_all add: s2_def f1)
      have s2i: "dep_store s2 ! i = (dep_store s ! i)\<lparr>dep_n := dep_n (dep_store s ! i) OR b,
                                           subs := set_add (subs (dep_store s ! i)) e\<rparr>"
        using i by (simp add: s2_def add_sub_nth f1 s1i)
      have s2j: "dep_store s2 ! j = dep_store s ! j" if "j < length (dep_store s)" "j \<noteq> i" for j
        using that by (simp add: s2_def add_sub_nth f1 s1j)
      have "dep_ok e b (insert (target, k) R) s2 j" if "j < length (dep_store s2)" for j
      proof (cases "j = i")
        case True
        then show ?thesis
          using oki here pos by (simp add: dep_ok_def s2i f2)
      next
        case False
        have jl: "j < length (dep_store s)" using that by (simp add: f2)
        show ?thesis
          using ok [OF jl] other [OF False] False
          by (simp add: dep_ok_def s2j [OF jl False] f2)
      qed
      moreover have "distinct (deps (effects s2 e))" using dd notin by (simp add: f2)
      moreover have "\<forall>j \<in> set (deps (effects s2 e)). j < length (dep_store s2)"
        using valid i by (auto simp: f2)
      moreover have "map_ok s2" using st(5) map_ok_cong [OF f2(1,2)] by simp
      ultimately show ?thesis using st R' unfolding eq tracking_def
        by (simp add: f2 activeEffect_def)
    qed
  qed
qed

lemma tracking_track:
  assumes "tracking e b R s" "0 <s b"
  shows "tracking e b (insert (target, k) R) (track s target k)"
proof -
  have st: "activeEffect s = Some e" "shouldTrack s" "map_ok s"
    using assms(1) by (simp_all add: tracking_def)
  have "lookup (snd (ensure_dep s target k)) target k = Some (fst (ensure_dep s target k))"
    using ensure_dep_props(3) [OF st(3)] .
  from tracking_trackEffects [OF tracking_ensure_dep [OF assms(1)] this assms(2)]
  show ?thesis by (simp add: track_ensure [OF st(1,2)])
qed

lemma tracking_run_fn:
  assumes "tracking e b R s" "0 <s b"
  shows "tracking e b (R \<union> set reads) (run_fn s reads)"
  using assms(1)
proof (induction reads arbitrary: s R)
  case Nil
  then show ?case by (simp add: run_fn_def)
next
  case (Cons p reads)
  obtain target k where p: "p = (target, k)" by (cases p)
  have "tracking e b (insert (target, k) R) (track s target k)"
    using Cons.prems assms(2) by (rule tracking_track)
  from Cons.IH [OF this] show ?case
    by (simp add: run_fn_def p)
qed


subsection \<open>What a run leaves alone\<close>

definition same_static :: "estate \<Rightarrow> estate \<Rightarrow> bool" where
  "same_static s t \<longleftrightarrow>
     activeStack t = activeStack s \<and> shouldTrack t = shouldTrack s \<and>
     trackStack t = trackStack s \<and> effectTrackDepth t = effectTrackDepth s \<and>
     trackOpBit t = trackOpBit s \<and> invoked t = invoked s \<and>
     (\<forall>e. active (effects t e) = active (effects s e) \<and>
          computed (effects t e) = computed (effects s e) \<and>
          allowRecurse (effects t e) = allowRecurse (effects s e) \<and>
          scheduler (effects t e) = scheduler (effects s e))"

lemma same_static_refl [simp]: "same_static s s"
  by (simp add: same_static_def)

lemma same_static_trans: "same_static s t \<Longrightarrow> same_static t u \<Longrightarrow> same_static s u"
  by (simp add: same_static_def)

lemma same_static_update_dep [simp]: "same_static s (update_dep s i f)"
  by (simp add: same_static_def)

lemma same_static_set_deps [simp]: "same_static s (set_deps s e ds)"
  by (simp add: same_static_def set_deps_def)

lemma same_static_add_sub [simp]: "same_static s (add_sub s e i)"
  unfolding add_sub_def
  by (rule same_static_trans [OF same_static_update_dep same_static_set_deps])

lemma same_static_trackEffects [simp]: "same_static s (trackEffects s e i)"
  by (auto simp: trackEffects_def Let_def
      intro: same_static_trans [OF same_static_update_dep same_static_add_sub])

lemma same_static_ensure_dep [simp]: "same_static s (snd (ensure_dep s target k))"
  by (simp add: same_static_def)

lemma same_static_track [simp]: "same_static s (track s target k)"
proof (cases "activeEffect s")
  case None
  then show ?thesis by (simp add: track_def)
next
  case (Some e)
  show ?thesis
  proof (cases "shouldTrack s")
    case True
    show ?thesis unfolding track_ensure [OF Some True]
      by (rule same_static_trans [OF same_static_ensure_dep same_static_trackEffects])
  next
    case False
    then show ?thesis using Some by (simp add: track_def)
  qed
qed

lemma same_static_run_fn [simp]: "same_static s (run_fn s reads)"
proof (induction reads arbitrary: s)
  case Nil
  then show ?case by (simp add: run_fn_def)
next
  case (Cons p reads)
  obtain target k where p: "p = (target, k)" by (cases p)
  have "same_static (track s target k) (run_fn (track s target k) reads)" by (rule Cons.IH)
  then have "same_static s (run_fn (track s target k) reads)"
    by (rule same_static_trans [OF same_static_track])
  then show ?case by (simp add: run_fn_def p)
qed


subsection \<open>A run from a state at rest\<close>

definition level_clear :: "estate \<Rightarrow> 32 word \<Rightarrow> bool" where
  "level_clear s b \<longleftrightarrow>
     (\<forall>i < length (dep_store s).
        \<not> marked (dep_w (dep_store s ! i)) b \<and> \<not> marked (dep_n (dep_store s ! i)) b)"

definition effect_ready :: "estate \<Rightarrow> eff \<Rightarrow> bool" where
  "effect_ready s e \<longleftrightarrow>
     active (effects s e) \<and> e \<notin> set (activeStack s) \<and> map_ok s \<and>
     trackOpBit s = shl1 (effectTrackDepth s) \<and>
     distinct (deps (effects s e)) \<and>
     (\<forall>i \<in> set (deps (effects s e)). i < length (dep_store s)) \<and>
     (\<forall>i < length (dep_store s).
        (e \<in> set (subs (dep_store s ! i)) \<longleftrightarrow> i \<in> set (deps (effects s e))) \<and>
        distinct (subs (dep_store s ! i))) \<and>
     (effectTrackDepth s + 1 \<le> maxMarkerBits \<longrightarrow> level_clear s (shl1 (effectTrackDepth s + 1)))"

definition tracked_exactly :: "estate \<Rightarrow> eff \<Rightarrow> (addr \<times> key) list \<Rightarrow> bool" where
  "tracked_exactly s e reads \<longleftrightarrow>
     (\<forall>i < length (dep_store s).
        e \<in> set (subs (dep_store s ! i)) \<longleftrightarrow> (\<exists>p \<in> set reads. lookup s (fst p) (snd p) = Some i)) \<and>
     (\<forall>p \<in> set reads. lookup s (fst p) (snd p) \<noteq> None)"

lemma finalizeDepMarkers_eq:
  "finalizeDepMarkers s e =
     set_deps (snd (finalize_loop s e (deps (effects s e)))) e
              (fst (finalize_loop s e (deps (effects s e))))"
  by (simp add: finalizeDepMarkers_def split: prod.split)

lemma run_marker:
  assumes ready: "effect_ready s e" and depth: "effectTrackDepth s + 1 \<le> maxMarkerBits"
  shows "effect_ready (run s e reads) e \<and> tracked_exactly (run s e reads) e reads \<and>
         same_static s (run s e reads)"
proof -
  define b where "b = shl1 (effectTrackDepth s + 1)"
  have pos: "0 <s b" using depth unfolding b_def by (intro shl1_pos) (simp_all add: maxMarkerBits_def)
  have tb: "trackOpBit s = shl1 (effectTrackDepth s)" using ready by (simp add: effect_ready_def)
  have r: "active (effects s e)" "e \<notin> set (activeStack s)" "map_ok s"
      "distinct (deps (effects s e))" "\<forall>i \<in> set (deps (effects s e)). i < length (dep_store s)"
      "\<And>i. i < length (dep_store s) \<Longrightarrow>
         (e \<in> set (subs (dep_store s ! i)) \<longleftrightarrow> i \<in> set (deps (effects s e))) \<and>
         distinct (subs (dep_store s ! i))"
      "level_clear s b"
    using ready depth by (simp_all add: effect_ready_def b_def)
  define s1 where "s1 = s\<lparr>activeStack := e # activeStack s, shouldTrack := True,
                    effectTrackDepth := effectTrackDepth s + 1, trackOpBit := b\<rparr>"
  define s2 where "s2 = initDepMarkers s1 e"
  define s3 where "s3 = run_fn s2 reads"
  define s4 where "s4 = finalizeDepMarkers s3 e"
  have run_eq: "run s e reads = s4\<lparr>effectTrackDepth := effectTrackDepth s4 - 1,
                trackOpBit := shl1 (effectTrackDepth s4 - 1),
                activeStack := tl (activeStack s4),
                shouldTrack := shouldTrack s\<rparr>"
  proof -
    have "effectTrackDepth s1 \<le> maxMarkerBits" using depth by (simp add: s1_def)
    moreover have "effectTrackDepth s3 \<le> maxMarkerBits"
      using depth same_static_run_fn [of s2 reads]
      by (simp add: s3_def s2_def s1_def same_static_def initDepMarkers_def init_loop_fields)
    ultimately show ?thesis
      using r(1,2) unfolding run_def Let_def s4_def s3_def s2_def s1_def b_def by simp
  qed
  text \<open>after the markers are set\<close>
  have f2: "targetMap s2 = targetMap s" "effects s2 = effects s"
      "activeStack s2 = e # activeStack s" "shouldTrack s2" "effectTrackDepth s2 = effectTrackDepth s + 1"
      "trackOpBit s2 = b" "length (dep_store s2) = length (dep_store s)" "invoked s2 = invoked s"
      "trackStack s2 = trackStack s"
    by (simp_all add: s2_def initDepMarkers_def init_loop_fields) (simp_all add: s1_def)
  have l2: "lookup s2 = lookup s" by (simp add: lookup_def f2 fun_eq_iff)
  have s2n: "dep_store s2 ! j =
     (if j \<in> set (deps (effects s e)) then (dep_store s ! j)\<lparr>dep_w := dep_w (dep_store s ! j) OR b\<rparr>
      else dep_store s ! j)" if "j < length (dep_store s)" for j
  proof -
    have "j < length (dep_store s1)" using that by (simp add: s1_def)
    from init_loop_nth [OF this, of "deps (effects s1 e)"] show ?thesis
      by (simp add: s2_def initDepMarkers_def) (simp add: s1_def)
  qed
  have t2: "tracking e b {} s2"
  proof -
    have "dep_ok e b {} s2 j" if "j < length (dep_store s2)" for j
    proof -
      have jl: "j < length (dep_store s)" using that by (simp add: f2)
      have "\<not> marked (dep_w (dep_store s ! j)) b" "\<not> marked (dep_n (dep_store s ! j)) b"
        using r(7) jl by (simp_all add: level_clear_def)
      then show ?thesis
        using r(6) [OF jl] pos by (simp add: dep_ok_def s2n [OF jl] f2)
    qed
    moreover have "map_ok s2" using r(3) map_ok_cong [OF l2 f2(7)] by simp
    ultimately show ?thesis
      using r(4,5) depth by (simp add: tracking_def f2 activeEffect_def)
  qed
  text \<open>after the function has run\<close>
  have t3: "tracking e b (set reads) s3"
    using tracking_run_fn [OF t2 pos, of reads] by (simp add: s3_def)
  have st3: "same_static s2 s3" by (simp add: s3_def)
  have g3: "trackOpBit s3 = b" "map_ok s3" "distinct (deps (effects s3 e))"
      "\<forall>i \<in> set (deps (effects s3 e)). i < length (dep_store s3)"
      "\<And>i. i < length (dep_store s3) \<Longrightarrow> dep_ok e b (set reads) s3 i"
      "\<forall>p \<in> set reads. lookup s3 (fst p) (snd p) \<noteq> None"
    using t3 by (simp_all add: tracking_def)
  text \<open>after the markers are finalized\<close>
  define ds where "ds = deps (effects s3 e)"
  define fl where "fl = finalize_loop s3 e ds"
  have s4: "s4 = set_deps (snd fl) e (fst fl)"
    by (simp add: s4_def finalizeDepMarkers_eq fl_def ds_def)
  note flf = finalize_loop_fields [of s3 e ds, folded fl_def]
  have l4: "lookup s4 = lookup s3" by (simp add: s4 lookup_def flf fun_eq_iff)
  have len4: "length (dep_store s4) = length (dep_store s3)" by (simp add: s4 flf)
  have s4n: "dep_store s4 ! j = (if j \<in> set ds then fin_dep b e (dep_store s3 ! j) else dep_store s3 ! j)"
    if "j < length (dep_store s3)" for j
    using finalize_loop_nth [OF g3(3) [folded ds_def] that, of e] g3(1)
    by (simp add: s4 fl_def)
  have d4: "deps (effects s4 e) = filter (\<lambda>i. \<not> dropped s3 i) ds"
    using finalize_loop_kept [OF g3(3) [folded ds_def] g3(4) [folded ds_def], of e]
    by (simp add: s4 fl_def)
  have st4: "same_static s3 s4"
    by (simp add: s4 same_static_def flf set_deps_def)
  have per: "(e \<in> set (subs (dep_store s4 ! j)) \<longleftrightarrow> (\<exists>p \<in> set reads. lookup s4 (fst p) (snd p) = Some j)) \<and>
             (j \<in> set (deps (effects s4 e)) \<longleftrightarrow> e \<in> set (subs (dep_store s4 ! j))) \<and>
             distinct (subs (dep_store s4 ! j)) \<and>
             \<not> marked (dep_w (dep_store s4 ! j)) b \<and> \<not> marked (dep_n (dep_store s4 ! j)) b"
    if "j < length (dep_store s4)" for j
  proof -
    have jl: "j < length (dep_store s3)" using that by (simp add: len4)
    show ?thesis
      using g3(5) [OF jl]
      by (auto simp: dep_ok_def s4n [OF jl] d4 l4 fin_dep_def dropped_def g3(1) ds_def)
  qed
  text \<open>the state that \<open>run\<close> returns\<close>
  define s5 where "s5 = run s e reads"
  have f5: "dep_store s5 = dep_store s4" "effects s5 = effects s4" "lookup s5 = lookup s4"
    by (simp_all add: s5_def run_eq lookup_def fun_eq_iff)
  have stat: "same_static s s5"
  proof -
    have "same_static s2 s4" using st3 st4 by (rule same_static_trans)
    then show ?thesis
      by (simp add: same_static_def f2 s5_def run_eq b_def tb)
  qed
  have "tracked_exactly s5 e reads"
    using per g3(6) by (simp add: tracked_exactly_def f5 l4)
  moreover have "effect_ready s5 e"
  proof -
    have "map_ok s5" using g3(2) map_ok_cong [of s5 s3] by (simp add: f5 l4 len4)
    moreover have "level_clear s5 b" using per by (simp add: level_clear_def f5)
    moreover have "distinct (deps (effects s5 e))" using g3(3) by (simp add: f5 d4 ds_def)
    moreover have "\<forall>i \<in> set (deps (effects s5 e)). i < length (dep_store s5)"
      using g3(4) by (auto simp: f5 d4 ds_def len4)
    ultimately show ?thesis
      using r(1,2) stat per tb by (simp add: effect_ready_def same_static_def f5 b_def)
  qed
  ultimately show ?thesis using stat by (simp add: s5_def)
qed


subsection \<open>The invariant of a run beyond the marker bits\<close>

definition full_ok :: "eff \<Rightarrow> (addr \<times> key) set \<Rightarrow> estate \<Rightarrow> depid \<Rightarrow> bool" where
  "full_ok e R t i \<longleftrightarrow>
     (e \<in> set (subs (dep_store t ! i)) \<longleftrightarrow> (\<exists>p \<in> R. lookup t (fst p) (snd p) = Some i)) \<and>
     (i \<in> set (deps (effects t e)) \<longleftrightarrow> e \<in> set (subs (dep_store t ! i))) \<and>
     distinct (subs (dep_store t ! i))"

definition tracking_full :: "eff \<Rightarrow> (addr \<times> key) set \<Rightarrow> estate \<Rightarrow> bool" where
  "tracking_full e R t \<longleftrightarrow>
     activeEffect t = Some e \<and> shouldTrack t \<and> \<not> effectTrackDepth t \<le> maxMarkerBits \<and>
     map_ok t \<and> distinct (deps (effects t e)) \<and>
     (\<forall>i \<in> set (deps (effects t e)). i < length (dep_store t)) \<and>
     (\<forall>i < length (dep_store t). full_ok e R t i) \<and>
     (\<forall>p \<in> R. lookup t (fst p) (snd p) \<noteq> None)"

lemma tracking_full_ensure_dep:
  assumes "tracking_full e R t"
  shows "tracking_full e R (snd (ensure_dep t target k))"
proof -
  define i where "i = fst (ensure_dep t target k)"
  define s1 where "s1 = snd (ensure_dep t target k)"
  have mo: "map_ok t" using assms by (simp add: tracking_full_def)
  note ep = ensure_dep_props [where s=t and target=target and k=k, OF mo, folded i_def s1_def]
  have R: "\<forall>p \<in> R. lookup t (fst p) (snd p) \<noteq> None" using assms by (simp add: tracking_full_def)
  have valid: "\<forall>j \<in> set (deps (effects t e)). j < length (dep_store t)"
    using assms by (simp add: tracking_full_def)
  have lk: "lookup s1 (fst p) (snd p) = lookup t (fst p) (snd p)" if "p \<in> R" for p
    using R that ep(4) by blast
  have "full_ok e R s1 j" if j: "j < length (dep_store s1)" for j
  proof (cases "j < length (dep_store t)")
    case True
    then have "full_ok e R t j" using assms by (simp add: tracking_full_def)
    moreover have "dep_store s1 ! j = dep_store t ! j" using True ep(6) by simp
    moreover have "effects s1 = effects t" by (simp add: s1_def)
    ultimately show ?thesis using lk by (simp add: full_ok_def)
  next
    case False
    then have neq: "s1 \<noteq> t" using j by auto
    then have none: "lookup t target k = None" using ep(9) by blast
    then have new: "dep_store s1 ! i = createDep []" "i = length (dep_store t)" using ep(8) by blast+
    have "length (dep_store s1) = Suc (length (dep_store t))"
      using ensure_dep_new(2) [OF none] by (simp add: s1_def)
    then have ji: "j = i" using False j new(2) by simp
    have "\<not> (\<exists>p \<in> R. lookup s1 (fst p) (snd p) = Some i)"
    proof
      assume "\<exists>p \<in> R. lookup s1 (fst p) (snd p) = Some i"
      then obtain p where p: "p \<in> R" "lookup t (fst p) (snd p) = Some i" using lk by auto
      then have "i < length (dep_store t)" using mo by (auto simp: map_ok_def)
      with new(2) show False by simp
    qed
    moreover have "i \<notin> set (deps (effects s1 e))"
      using valid new(2) by (auto simp: s1_def)
    ultimately show ?thesis
      using new(1) by (simp add: full_ok_def ji createDep_def set_spread_def)
  qed
  moreover have "\<forall>j \<in> set (deps (effects s1 e)). j < length (dep_store s1)"
    using valid ep(7) by (auto simp: s1_def)
  moreover have "\<forall>p \<in> R. lookup s1 (fst p) (snd p) \<noteq> None" using lk R by simp
  ultimately show ?thesis
    using assms ep(1) unfolding tracking_full_def s1_def [symmetric]
    by (simp add: s1_def activeEffect_def)
qed

lemma trackEffects_full:
  assumes "\<not> effectTrackDepth s \<le> maxMarkerBits"
  shows "trackEffects s e i =
     (if e \<notin> set (subs (dep_store s ! i)) then add_sub s e i else s)"
  using assms by (simp add: trackEffects_def Let_def)

lemma tracking_full_trackEffects:
  assumes inv: "tracking_full e R s" and lk: "lookup s target k = Some i"
  shows "tracking_full e (insert (target, k) R) (trackEffects s e i)"
proof -
  have st: "activeEffect s = Some e" "shouldTrack s"
      "\<not> effectTrackDepth s \<le> maxMarkerBits" "map_ok s"
    and dd: "distinct (deps (effects s e))"
    and valid: "\<forall>j \<in> set (deps (effects s e)). j < length (dep_store s)"
    and ok: "\<And>j. j < length (dep_store s) \<Longrightarrow> full_ok e R s j"
    and R: "\<forall>p \<in> R. lookup s (fst p) (snd p) \<noteq> None"
    using inv by (simp_all add: tracking_full_def)
  have i: "i < length (dep_store s)" using st(4) lk by (auto simp: map_ok_def)
  have other: "(\<exists>p \<in> insert (target, k) R. lookup s (fst p) (snd p) = Some j)
      \<longleftrightarrow> (\<exists>p \<in> R. lookup s (fst p) (snd p) = Some j)" if "j \<noteq> i" for j
    using that lk by auto
  have here: "\<exists>p \<in> insert (target, k) R. lookup s (fst p) (snd p) = Some i"
    using lk by auto
  have R': "\<forall>p \<in> insert (target, k) R. lookup s (fst p) (snd p) \<noteq> None"
    using R lk by auto
  note oki = ok [OF i, unfolded full_ok_def]
  show ?thesis
  proof (cases "e \<in> set (subs (dep_store s ! i))")
    case True
    then have eq: "trackEffects s e i = s" using st by (simp add: trackEffects_full)
    have "full_ok e (insert (target, k) R) s j" if "j < length (dep_store s)" for j
      using ok [OF that] other [of j] here True unfolding full_ok_def by (cases "j = i") auto
    then show ?thesis using st dd valid R' unfolding eq tracking_full_def by simp
  next
    case False
    define s2 where "s2 = add_sub s e i"
    have eq: "trackEffects s e i = s2" using st False by (simp add: trackEffects_full s2_def)
    have notin: "i \<notin> set (deps (effects s e))" using oki False by simp
    have f2: "lookup s2 = lookup s"
      "length (dep_store s2) = length (dep_store s)" "activeStack s2 = activeStack s"
      "shouldTrack s2 = shouldTrack s" "trackOpBit s2 = trackOpBit s"
      "effectTrackDepth s2 = effectTrackDepth s"
      "deps (effects s2 e) = deps (effects s e) @ [i]"
      by (simp_all add: s2_def)
    have s2i: "dep_store s2 ! i = (dep_store s ! i)\<lparr>subs := set_add (subs (dep_store s ! i)) e\<rparr>"
      using i by (simp add: s2_def add_sub_nth)
    have s2j: "dep_store s2 ! j = dep_store s ! j" if "j < length (dep_store s)" "j \<noteq> i" for j
      using that by (simp add: s2_def add_sub_nth)
    have "full_ok e (insert (target, k) R) s2 j" if "j < length (dep_store s2)" for j
    proof (cases "j = i")
      case True
      then show ?thesis using oki here by (simp add: full_ok_def s2i f2)
    next
      case False
      have jl: "j < length (dep_store s)" using that by (simp add: f2)
      show ?thesis
        using ok [OF jl] other [OF False] False
        by (simp add: full_ok_def s2j [OF jl False] f2)
    qed
    moreover have "distinct (deps (effects s2 e))" using dd notin by (simp add: f2)
    moreover have "\<forall>j \<in> set (deps (effects s2 e)). j < length (dep_store s2)"
      using valid i by (auto simp: f2)
    moreover have "map_ok s2" using st(4) map_ok_cong [OF f2(1,2)] by simp
    ultimately show ?thesis using st R' unfolding eq tracking_full_def
      by (simp add: f2 activeEffect_def)
  qed
qed

lemma tracking_full_track:
  assumes "tracking_full e R s"
  shows "tracking_full e (insert (target, k) R) (track s target k)"
proof -
  have st: "activeEffect s = Some e" "shouldTrack s" "map_ok s"
    using assms(1) by (simp_all add: tracking_full_def)
  have "lookup (snd (ensure_dep s target k)) target k = Some (fst (ensure_dep s target k))"
    using ensure_dep_props(3) [OF st(3)] .
  from tracking_full_trackEffects [OF tracking_full_ensure_dep [OF assms(1)] this]
  show ?thesis by (simp add: track_ensure [OF st(1,2)])
qed

lemma tracking_full_run_fn:
  assumes "tracking_full e R s"
  shows "tracking_full e (R \<union> set reads) (run_fn s reads)"
  using assms(1)
proof (induction reads arbitrary: s R)
  case Nil
  then show ?case by (simp add: run_fn_def)
next
  case (Cons p reads)
  obtain target k where p: "p = (target, k)" by (cases p)
  have "tracking_full e (insert (target, k) R) (track s target k)"
    using Cons.prems by (rule tracking_full_track)
  from Cons.IH [OF this] show ?case
    by (simp add: run_fn_def p)
qed


lemma cleanup_loop_fields:
  fixes s ds e
  defines "t \<equiv> foldl (\<lambda>t i. update_dep t i (\<lambda>d. d\<lparr>subs := set_delete (subs d) e\<rparr>)) s ds"
  shows "targetMap t = targetMap s" "effects t = effects s" "activeStack t = activeStack s"
    "shouldTrack t = shouldTrack s" "trackStack t = trackStack s"
    "effectTrackDepth t = effectTrackDepth s" "trackOpBit t = trackOpBit s"
    "invoked t = invoked s" "length (dep_store t) = length (dep_store s)"
  unfolding t_def by (induction ds arbitrary: s, simp_all)

lemma set_delete_idem: "set_delete (set_delete xs e) e = set_delete xs e"
  by (simp add: set_delete_def)

lemma cleanup_loop_nth:
  fixes s ds e
  defines "t \<equiv> foldl (\<lambda>t i. update_dep t i (\<lambda>d. d\<lparr>subs := set_delete (subs d) e\<rparr>)) s ds"
  assumes "j < length (dep_store s)"
  shows "dep_store t ! j =
     (if j \<in> set ds then (dep_store s ! j)\<lparr>subs := set_delete (subs (dep_store s ! j)) e\<rparr>
      else dep_store s ! j)"
  using assms(2) unfolding t_def
proof (induction ds arbitrary: s)
  case Nil
  then show ?case by simp
next
  case (Cons i ds)
  define s1 where "s1 = update_dep s i (\<lambda>d. d\<lparr>subs := set_delete (subs d) e\<rparr>)"
  have j: "j < length (dep_store s1)" using Cons.prems by (simp add: s1_def)
  have "dep_store s1 ! j = (if j = i then (dep_store s ! j)\<lparr>subs := set_delete (subs (dep_store s ! j)) e\<rparr>
       else dep_store s ! j)"
    using Cons.prems by (simp add: s1_def update_dep_nth)
  moreover have "foldl (\<lambda>t i. update_dep t i (\<lambda>d. d\<lparr>subs := set_delete (subs d) e\<rparr>)) s (i # ds)
      = foldl (\<lambda>t i. update_dep t i (\<lambda>d. d\<lparr>subs := set_delete (subs d) e\<rparr>)) s1 ds"
    by (simp add: s1_def)
  ultimately show ?case
    using Cons.IH [OF j] by (cases "j = i"; cases "j \<in> set ds"; simp add: set_delete_idem)
qed

lemma run_full:
  assumes ready: "effect_ready s e" and depth: "\<not> effectTrackDepth s + 1 \<le> maxMarkerBits"
  shows "effect_ready (run s e reads) e \<and> tracked_exactly (run s e reads) e reads \<and>
         same_static s (run s e reads)"
proof -
  have tb: "trackOpBit s = shl1 (effectTrackDepth s)" using ready by (simp add: effect_ready_def)
  have r: "active (effects s e)" "e \<notin> set (activeStack s)" "map_ok s"
      "distinct (deps (effects s e))" "\<forall>i \<in> set (deps (effects s e)). i < length (dep_store s)"
      "\<And>i. i < length (dep_store s) \<Longrightarrow>
         (e \<in> set (subs (dep_store s ! i)) \<longleftrightarrow> i \<in> set (deps (effects s e))) \<and>
         distinct (subs (dep_store s ! i))"
    using ready by (simp_all add: effect_ready_def)
  define s1 where "s1 = s\<lparr>activeStack := e # activeStack s, shouldTrack := True,
                    effectTrackDepth := effectTrackDepth s + 1,
                    trackOpBit := shl1 (effectTrackDepth s + 1)\<rparr>"
  define s2 where "s2 = cleanupEffect s1 e"
  define s3 where "s3 = run_fn s2 reads"
  have st3: "same_static s2 s3" by (simp add: s3_def)
  have f2: "targetMap s2 = targetMap s"
      "activeStack s2 = e # activeStack s" "shouldTrack s2" "effectTrackDepth s2 = effectTrackDepth s + 1"
      "trackOpBit s2 = shl1 (effectTrackDepth s + 1)" "length (dep_store s2) = length (dep_store s)"
      "invoked s2 = invoked s" "trackStack s2 = trackStack s" "deps (effects s2 e) = []"
    by (simp_all add: s2_def cleanupEffect_def cleanup_loop_fields) (simp_all add: s1_def)
  have fl2: "active (effects s2 e') = active (effects s e')"
      "computed (effects s2 e') = computed (effects s e')"
      "allowRecurse (effects s2 e') = allowRecurse (effects s e')"
      "scheduler (effects s2 e') = scheduler (effects s e')" for e'
    by (simp_all add: s2_def cleanupEffect_def cleanup_loop_fields) (simp_all add: s1_def)
  have run_eq: "run s e reads = s3\<lparr>effectTrackDepth := effectTrackDepth s3 - 1,
                trackOpBit := shl1 (effectTrackDepth s3 - 1),
                activeStack := tl (activeStack s3),
                shouldTrack := shouldTrack s\<rparr>"
  proof -
    have "\<not> effectTrackDepth s1 \<le> maxMarkerBits" using depth by (simp add: s1_def)
    moreover have "\<not> effectTrackDepth s3 \<le> maxMarkerBits"
      using depth st3 by (simp add: same_static_def f2)
    ultimately show ?thesis
      using r(1,2) unfolding run_def Let_def s3_def s2_def s1_def by simp
  qed
  have l2: "lookup s2 = lookup s" by (simp add: lookup_def f2 fun_eq_iff)
  have s2n: "dep_store s2 ! j =
     (if j \<in> set (deps (effects s e)) then (dep_store s ! j)\<lparr>subs := set_delete (subs (dep_store s ! j)) e\<rparr>
      else dep_store s ! j)" if "j < length (dep_store s)" for j
  proof -
    have "j < length (dep_store s1)" using that by (simp add: s1_def)
    from cleanup_loop_nth [where s=s1 and ds="deps (effects s1 e)" and e=e, OF this] show ?thesis
      by (simp add: s2_def cleanupEffect_def) (simp add: s1_def)
  qed
  have t2: "tracking_full e {} s2"
  proof -
    have "full_ok e {} s2 j" if "j < length (dep_store s2)" for j
    proof -
      have jl: "j < length (dep_store s)" using that by (simp add: f2)
      show ?thesis using r(6) [OF jl] by (simp add: full_ok_def s2n [OF jl] f2)
    qed
    moreover have "map_ok s2" using r(3) map_ok_cong [OF l2 f2(6)] by simp
    ultimately show ?thesis
      using depth by (simp add: tracking_full_def f2 activeEffect_def)
  qed
  have t3: "tracking_full e (set reads) s3"
    using tracking_full_run_fn [OF t2, of reads] by (simp add: s3_def)
  have g3: "map_ok s3" "distinct (deps (effects s3 e))"
      "\<forall>i \<in> set (deps (effects s3 e)). i < length (dep_store s3)"
      "\<And>i. i < length (dep_store s3) \<Longrightarrow> full_ok e (set reads) s3 i"
      "\<forall>p \<in> set reads. lookup s3 (fst p) (snd p) \<noteq> None"
    using t3 by (simp_all add: tracking_full_def)
  define s5 where "s5 = run s e reads"
  have f5: "dep_store s5 = dep_store s3" "effects s5 = effects s3" "lookup s5 = lookup s3"
    by (simp_all add: s5_def run_eq lookup_def fun_eq_iff)
  have stat: "same_static s s5"
    using st3 by (simp add: same_static_def f2 fl2 s5_def run_eq tb)
  have "tracked_exactly s5 e reads"
    using g3(4,5) by (simp add: tracked_exactly_def f5 full_ok_def)
  moreover have "effect_ready s5 e"
  proof -
    have "map_ok s5" using g3(1) map_ok_cong [of s5 s3] by (simp add: f5)
    then show ?thesis
      using r(1,2) stat g3(2,3,4) tb depth
      by (simp add: effect_ready_def same_static_def f5 full_ok_def)
  qed
  ultimately show ?thesis using stat by (simp add: s5_def)
qed

lemma run_precise:
  assumes "effect_ready s e"
  shows "effect_ready (run s e reads) e \<and> tracked_exactly (run s e reads) e reads \<and>
         same_static s (run s e reads)"
  using run_marker [OF assms] run_full [OF assms] by blast

lemma tracked_exactly_subscribed:
  assumes "tracked_exactly s e reads" "map_ok s"
  shows "subscribed s e target k \<longleftrightarrow> (target, k) \<in> set reads"
proof
  assume "subscribed s e target k"
  then obtain i where i: "lookup s target k = Some i" "e \<in> set (subs (dep_store s ! i))"
    by (auto simp: subscribed_def split: option.splits)
  then have "i < length (dep_store s)" using assms(2) by (auto simp: map_ok_def)
  then obtain p where "p \<in> set reads" "lookup s (fst p) (snd p) = Some i"
    using assms(1) i(2) by (auto simp: tracked_exactly_def)
  then show "(target, k) \<in> set reads"
    using i(1) assms(2) unfolding map_ok_def by (metis prod.collapse)
next
  assume in_reads: "(target, k) \<in> set reads"
  then obtain i where i: "lookup s target k = Some i"
    using assms(1) by (fastforce simp: tracked_exactly_def)
  then have "i < length (dep_store s)" using assms(2) by (auto simp: map_ok_def)
  then have "e \<in> set (subs (dep_store s ! i))"
    using assms(1) in_reads i by (fastforce simp: tracked_exactly_def)
  then show "subscribed s e target k" using i by (simp add: subscribed_def)
qed


subsection \<open>trigger\<close>

definition fires :: "estate \<Rightarrow> eff \<Rightarrow> bool" where
  "fires s e = (Some e \<noteq> activeEffect s \<or> allowRecurse (effects s e))"

definition call_of :: "estate \<Rightarrow> eff \<Rightarrow> invocation" where
  "call_of s e = (if scheduler (effects s e) then Scheduler e else Run e)"

fun callee :: "invocation \<Rightarrow> eff" where
  "callee (Scheduler e) = e"
| "callee (Run e) = e"

definition calls_of :: "eff \<Rightarrow> invocation list \<Rightarrow> nat" where
  "calls_of e cs = length (filter (\<lambda>c. callee c = e) cs)"

lemma triggerEffect_fields [simp]:
  "effects (triggerEffect s e) = effects s" "activeStack (triggerEffect s e) = activeStack s"
  "dep_store (triggerEffect s e) = dep_store s" "targetMap (triggerEffect s e) = targetMap s"
  by (simp_all add: triggerEffect_def)

lemma triggerEffect_invoked:
  "invoked (triggerEffect s e) = invoked s @ (if fires s e then [call_of s e] else [])"
  by (simp add: triggerEffect_def fires_def call_of_def)

lemma trigger_loop:
  fixes P :: "eff \<Rightarrow> bool"
  defines "t \<equiv> \<lambda>s es. foldl (\<lambda>t e. if P e then triggerEffect t e else t) s es"
  shows "effects (t s es) = effects s \<and> activeStack (t s es) = activeStack s \<and>
         dep_store (t s es) = dep_store s \<and> targetMap (t s es) = targetMap s \<and>
         invoked (t s es) = invoked s @ map (call_of s) (filter (\<lambda>e. P e \<and> fires s e) es)"
  unfolding t_def
proof (induction es arbitrary: s)
  case Nil
  then show ?case by simp
next
  case (Cons e es)
  define s1 where "s1 = (if P e then triggerEffect s e else s)"
  have f: "effects s1 = effects s" "activeStack s1 = activeStack s"
     "dep_store s1 = dep_store s" "targetMap s1 = targetMap s"
    by (simp_all add: s1_def)
  have c: "call_of s1 = call_of s" "fires s1 = fires s"
    by (simp_all add: call_of_def fires_def f activeEffect_def fun_eq_iff)
  have i: "invoked s1 = invoked s @ (if P e \<and> fires s e then [call_of s e] else [])"
    by (simp add: s1_def triggerEffect_invoked)
  show ?case
    using Cons.IH [of s1] by (simp add: s1_def [symmetric] f c i)
qed

lemma triggerEffects_invoked:
  "invoked (triggerEffects s es) =
     invoked s @ map (call_of s) (filter (\<lambda>e. computed (effects s e) \<and> fires s e) es)
               @ map (call_of s) (filter (\<lambda>e. \<not> computed (effects s e) \<and> fires s e) es)"
proof -
  define s1 where "s1 = foldl (\<lambda>t e. if computed (effects s e) then triggerEffect t e else t) s es"
  have a: "foldl (\<lambda>t e. if computed (effects t e) then triggerEffect t e else t) s' es'
         = foldl (\<lambda>t e. if computed (effects s' e) then triggerEffect t e else t) s' es'" for s' es'
  proof -
    have "effects s'' = effects s' \<Longrightarrow>
        foldl (\<lambda>t e. if computed (effects t e) then triggerEffect t e else t) s'' es'
         = foldl (\<lambda>t e. if computed (effects s' e) then triggerEffect t e else t) s'' es'" for s''
      by (induction es' arbitrary: s'') simp_all
    then show ?thesis by simp
  qed
  have b: "foldl (\<lambda>t e. if \<not> computed (effects t e) then triggerEffect t e else t) s' es'
         = foldl (\<lambda>t e. if \<not> computed (effects s' e) then triggerEffect t e else t) s' es'" for s' es'
  proof -
    have "effects s'' = effects s' \<Longrightarrow>
        foldl (\<lambda>t e. if \<not> computed (effects t e) then triggerEffect t e else t) s'' es'
         = foldl (\<lambda>t e. if \<not> computed (effects s' e) then triggerEffect t e else t) s'' es'" for s''
      by (induction es' arbitrary: s'') simp_all
    then show ?thesis by simp
  qed
  note l1 = trigger_loop [of "\<lambda>e. computed (effects s e)" s es, folded s1_def]
  have c: "call_of s1 = call_of s" "fires s1 = fires s" "effects s1 = effects s"
    using l1 by (simp_all add: call_of_def fires_def activeEffect_def fun_eq_iff)
  note l2 = trigger_loop [of "\<lambda>e. \<not> computed (effects s1 e)" s1 es]
  show ?thesis
    unfolding triggerEffects_def Let_def a b s1_def [symmetric]
    using l1 l2 by (simp add: c)
qed


lemma callee_call_of [simp]: "callee (call_of s e) = e"
  by (simp add: call_of_def)

lemma calls_of_append [simp]: "calls_of e (xs @ ys) = calls_of e xs + calls_of e ys"
  by (simp add: calls_of_def)

lemma calls_of_map:
  "distinct es \<Longrightarrow> calls_of e (map (call_of s) (filter P es)) = (if e \<in> set es \<and> P e then 1 else 0)"
proof (induction es)
  case Nil
  then show ?case by (simp add: calls_of_def)
next
  case (Cons x es)
  then show ?case by (auto simp: calls_of_def)
qed

lemma calls_of_triggerEffects:
  assumes "distinct es"
  shows "calls_of e (invoked (triggerEffects s es)) =
         calls_of e (invoked s) + (if e \<in> set es \<and> fires s e then 1 else 0)"
  by (auto simp: triggerEffects_invoked calls_of_map [OF assms])






subsection \<open>Dependency precision\<close>




lemma effect_ready_init: "effect_ready init_estate 0"
  by (simp add: effect_ready_def init_estate_def map_ok_def lookup_def level_clear_def shl1_def)


subsection \<open>The order of the calls of \<open>triggerEffects\<close>\<close>

text \<open>
  \<open>triggerEffects\<close> of packages/reactivity calls the computed effects of the set before
  any other effect of it: the calls it adds are those of the computed effects, in the
  order of the set, followed by those of the other effects.
\<close>

lemma triggerEffects_computed_first:
  "\<exists>cs ps. invoked (triggerEffects s es) = invoked s @ cs @ ps \<and>
     (\<forall>c \<in> set cs. computed (effects s (callee c))) \<and>
     (\<forall>p \<in> set ps. \<not> computed (effects s (callee p))) \<and>
     callee ` set (cs @ ps) = {e \<in> set es. fires s e}"
  unfolding triggerEffects_invoked
  by (intro exI conjI, rule refl) (auto simp: image_Un image_image)

definition plain_then_computed :: estate where
  "plain_then_computed =
     init_estate\<lparr>effects := (\<lambda>e. \<lparr>active = True, deps = [], computed = (e = 1),
        allowRecurse = False, scheduler = (e = 1)\<rparr>)\<rparr>"

text \<open>
  C2 does not hold of \<open>triggerEffects\<close> of src/reactivity/effect.js: for the set of the
  plain effect 0 and the computed effect 1, in this order, it runs the plain effect
  before it calls the scheduler of the computed one.
\<close>

theorem triggerEffects_legacy_plain_first:
  "invoked (triggerEffects_legacy plain_then_computed [0, 1]) = [Run 0, Scheduler 1] \<and>
   invoked (triggerEffects plain_then_computed [0, 1]) = [Scheduler 1, Run 0]"
  by code_simp


section \<open>Reactive proxies (reactivity/src/reactive.js, baseHandlers.js)\<close>

text \<open>
  JavaScript values: the primitives, with \<open>NaN\<close> apart from the other numbers, and
  references to objects. Strict equality is equality of values, but for \<open>NaN\<close>.
\<close>

datatype val = Undefined | Null | Bool bool | Num int | NaN | Str string | Obj addr

definition strict_eq :: "val \<Rightarrow> val \<Rightarrow> bool" where
  "strict_eq a b = (a = b \<and> a \<noteq> NaN)"

definition isObject :: "val \<Rightarrow> bool" where
  "isObject v = (case v of Obj _ \<Rightarrow> True | _ \<Rightarrow> False)"

text \<open>
  The traps of a handler object. \<open>Getter isReadonly shallow\<close> is \<open>createGetter\<close> of these
  arguments, \<open>CollectionGetter\<close> is \<open>createCollectionGetter\<close>, \<open>Setter shallow\<close> is
  \<open>createSetter\<close>; the traps of \<open>readonlyHandlers\<close> have constructors of their own. A
  handler object without a trap leaves the operation to the target.
\<close>

datatype get_trap = Getter bool bool | CollectionGetter bool bool
datatype set_trap = Setter bool | ReadonlySet
datatype delete_trap = DeleteProperty | ReadonlyDelete

record handlers =
  get_t :: get_trap
  set_t :: "set_trap option"
  deleteProperty_t :: "delete_trap option"
  has_t :: bool
  ownKeys_t :: bool

definition mutableHandlers :: handlers where
  "mutableHandlers = \<lparr>get_t = Getter False False, set_t = Some (Setter False),
     deleteProperty_t = Some DeleteProperty, has_t = True, ownKeys_t = True\<rparr>"

definition readonlyHandlers :: handlers where
  "readonlyHandlers = \<lparr>get_t = Getter True False, set_t = Some ReadonlySet,
     deleteProperty_t = Some ReadonlyDelete, has_t = False, ownKeys_t = False\<rparr>"

definition shallowReactiveHandlers :: handlers where
  "shallowReactiveHandlers = mutableHandlers\<lparr>get_t := Getter False True, set_t := Some (Setter True)\<rparr>"

definition shallowReadonlyHandlers :: handlers where
  "shallowReadonlyHandlers = readonlyHandlers\<lparr>get_t := Getter True True\<rparr>"

definition collectionHandlers :: "bool \<Rightarrow> bool \<Rightarrow> handlers" where
  "collectionHandlers isReadonly isShallow = \<lparr>get_t = CollectionGetter isReadonly isShallow,
     set_t = None, deleteProperty_t = None, has_t = False, ownKeys_t = False\<rparr>"

definition mutableCollectionHandlers :: handlers where
  "mutableCollectionHandlers = collectionHandlers False False"

definition shallowCollectionHandlers :: handlers where
  "shallowCollectionHandlers = collectionHandlers False True"

definition readonlyCollectionHandlers :: handlers where
  "readonlyCollectionHandlers = collectionHandlers True False"

definition shallowReadonlyCollectionHandlers :: handlers where
  "shallowReadonlyCollectionHandlers = collectionHandlers True True"

text \<open>
  The heap, in the order of allocation. A raw object has the type that \<open>toRawType\<close>
  reads, may be extensible, may carry the \<open>__skip\<close> property that \<open>markRaw\<close> defines, and
  has its properties and (an array) its elements. A property is a data property with
  its value, or an accessor property, of which it is kept whether it has a setter. The
  own properties that are not writable and those that are not configurable are listed
  by key, as \<open>Object.defineProperty\<close>, \<open>Object.seal\<close> and \<open>Object.freeze\<close> leave them.
  The other flag properties (\<open>__raw\<close>, \<open>__isReactive\<close>, \<open>__isReadonly\<close>) are the
  library's: a raw object has none. A proxy has its target and its handler object.
\<close>

datatype property = DataProperty val | AccessorProperty bool

record raw_object =
  rtype :: raw_type
  extensible :: bool
  skip :: bool
  props :: "(key \<times> property) list"
  elems :: "val list"
  nonwritable :: "key list"
  nonconfigurable :: "key list"

datatype cell = RawObject raw_object | Proxy addr handlers

datatype proxy_map = ReactiveMap | ShallowReactiveMap | ReadonlyMap | ShallowReadonlyMap

record pstate =
  heap :: "cell list"
  reactiveMap :: "addr \<Rightarrow> addr option"
  shallowReactiveMap :: "addr \<Rightarrow> addr option"
  readonlyMap :: "addr \<Rightarrow> addr option"
  shallowReadonlyMap :: "addr \<Rightarrow> addr option"

fun map_get :: "proxy_map \<Rightarrow> pstate \<Rightarrow> addr \<Rightarrow> addr option" where
  "map_get ReactiveMap s = reactiveMap s"
| "map_get ShallowReactiveMap s = shallowReactiveMap s"
| "map_get ReadonlyMap s = readonlyMap s"
| "map_get ShallowReadonlyMap s = shallowReadonlyMap s"

fun map_set :: "proxy_map \<Rightarrow> addr \<Rightarrow> addr \<Rightarrow> pstate \<Rightarrow> pstate" where
  "map_set ReactiveMap t p s = s\<lparr>reactiveMap := (reactiveMap s)(t \<mapsto> p)\<rparr>"
| "map_set ShallowReactiveMap t p s = s\<lparr>shallowReactiveMap := (shallowReactiveMap s)(t \<mapsto> p)\<rparr>"
| "map_set ReadonlyMap t p s = s\<lparr>readonlyMap := (readonlyMap s)(t \<mapsto> p)\<rparr>"
| "map_set ShallowReadonlyMap t p s = s\<lparr>shallowReadonlyMap := (shallowReadonlyMap s)(t \<mapsto> p)\<rparr>"

text \<open>The map that the \<open>get\<close> trap of \<open>createGetter\<close> compares the receiver with.\<close>

definition map_of_flags :: "bool \<Rightarrow> bool \<Rightarrow> proxy_map" where
  "map_of_flags isReadonly shallow =
     (if isReadonly then (if shallow then ShallowReadonlyMap else ReadonlyMap)
      else (if shallow then ShallowReactiveMap else ReactiveMap))"

text \<open>
  Reading the flags of an object. \<open>raw_flag\<close> is \<open>x.__raw\<close>: the target of a proxy (for a
  proxy of \<open>createGetter\<close>, if the proxy is the one its map holds for the target, which
  \<open>createReactiveObject\<close>, the only maker of proxies, sees to).
\<close>

definition raw_flag :: "pstate \<Rightarrow> addr \<Rightarrow> addr option" where
  "raw_flag s a =
     (if a < length (heap s) then
        (case heap s ! a of
           RawObject _ \<Rightarrow> None
         | Proxy t h \<Rightarrow>
             (case get_t h of
                Getter r sh \<Rightarrow> if map_get (map_of_flags r sh) s t = Some a then Some t else None
              | CollectionGetter r sh \<Rightarrow> Some t))
      else None)"

definition is_readonly_flag :: "pstate \<Rightarrow> addr \<Rightarrow> bool" where
  "is_readonly_flag s a =
     (if a < length (heap s) then
        (case heap s ! a of
           RawObject _ \<Rightarrow> False
         | Proxy t h \<Rightarrow> (case get_t h of Getter r sh \<Rightarrow> r | CollectionGetter r sh \<Rightarrow> r))
      else False)"

definition is_reactive_flag :: "pstate \<Rightarrow> addr \<Rightarrow> bool" where
  "is_reactive_flag s a =
     (if a < length (heap s) then
        (case heap s ! a of
           RawObject _ \<Rightarrow> False
         | Proxy t h \<Rightarrow> (case get_t h of Getter r sh \<Rightarrow> \<not> r | CollectionGetter r sh \<Rightarrow> \<not> r))
      else False)"

definition isReadonly :: "pstate \<Rightarrow> val \<Rightarrow> bool" where
  "isReadonly s v = (case v of Obj a \<Rightarrow> is_readonly_flag s a | _ \<Rightarrow> False)"

text \<open>
  The raw object behind an object: itself, or what is behind the target of a proxy. The
  other properties of a proxy (\<open>__skip\<close>, whether it is extensible, its type tag) are
  those of this object. A proxy is allocated after its target.
\<close>

function underlying :: "pstate \<Rightarrow> addr \<Rightarrow> addr option" where
  "underlying s a =
     (if a < length (heap s) then
        (case heap s ! a of
           RawObject _ \<Rightarrow> Some a
         | Proxy t h \<Rightarrow> if t < a then underlying s t else None)
      else None)"
  by pat_completeness auto
termination
  by (relation "measure (\<lambda>(s, a). a)") auto

declare underlying.simps [simp del]

definition raw_of :: "pstate \<Rightarrow> addr \<Rightarrow> raw_object option" where
  "raw_of s a =
     (case underlying s a of
        None \<Rightarrow> None
      | Some u \<Rightarrow> (case heap s ! u of RawObject ro \<Rightarrow> Some ro | Proxy _ _ \<Rightarrow> None))"

datatype TargetType = INVALID | COMMON | COLLECTION

definition targetTypeMap :: "raw_type \<Rightarrow> TargetType" where
  "targetTypeMap rawType =
     (case rawType of
        TObject \<Rightarrow> COMMON | TArray \<Rightarrow> COMMON
      | TMap \<Rightarrow> COLLECTION | TSet \<Rightarrow> COLLECTION | TWeakMap \<Rightarrow> COLLECTION | TWeakSet \<Rightarrow> COLLECTION
      | TOther \<Rightarrow> INVALID)"

definition getTargetType :: "pstate \<Rightarrow> addr \<Rightarrow> TargetType" where
  "getTargetType s a =
     (case raw_of s a of
        None \<Rightarrow> INVALID
      | Some ro \<Rightarrow> if skip ro \<or> \<not> extensible ro then INVALID else targetTypeMap (rtype ro))"

text \<open>
  \<open>createReactiveObject\<close>. A reference that is no object of the heap is returned as it
  is.
\<close>

definition createReactiveObject ::
  "pstate \<Rightarrow> val \<Rightarrow> bool \<Rightarrow> handlers \<Rightarrow> handlers \<Rightarrow> proxy_map \<Rightarrow> val \<times> pstate" where
  "createReactiveObject s target isReadonly' baseHandlers collectionHandlers' proxyMap =
     (case target of
        Obj a \<Rightarrow>
          if \<not> a < length (heap s) then (target, s)
          else if raw_flag s a \<noteq> None \<and> \<not> (isReadonly' \<and> is_reactive_flag s a) then (target, s)
          else
            (case map_get proxyMap s a of
               Some existingProxy \<Rightarrow> (Obj existingProxy, s)
             | None \<Rightarrow>
                 (case getTargetType s a of
                    INVALID \<Rightarrow> (target, s)
                  | targetType \<Rightarrow>
                      (let proxy = length (heap s);
                           h = (if targetType = COLLECTION then collectionHandlers' else baseHandlers)
                       in (Obj proxy, map_set proxyMap a proxy (s\<lparr>heap := heap s @ [Proxy a h]\<rparr>)))))
      | _ \<Rightarrow> (target, s))"

definition reactive :: "val \<Rightarrow> pstate \<Rightarrow> val \<times> pstate" where
  "reactive target s =
     (if isReadonly s target then (target, s)
      else createReactiveObject s target False mutableHandlers mutableCollectionHandlers ReactiveMap)"

definition shallowReactive :: "val \<Rightarrow> pstate \<Rightarrow> val \<times> pstate" where
  "shallowReactive target s =
     createReactiveObject s target False shallowReactiveHandlers shallowCollectionHandlers
       ShallowReactiveMap"

definition readonly :: "val \<Rightarrow> pstate \<Rightarrow> val \<times> pstate" where
  "readonly target s =
     createReactiveObject s target True readonlyHandlers readonlyCollectionHandlers ReadonlyMap"

definition shallowReadonly :: "val \<Rightarrow> pstate \<Rightarrow> val \<times> pstate" where
  "shallowReadonly target s =
     createReactiveObject s target True shallowReadonlyHandlers shallowReadonlyCollectionHandlers
       ShallowReadonlyMap"

text \<open>
  \<open>toRaw\<close> follows \<open>__raw\<close> as long as it is set.
\<close>

function toRaw_addr :: "pstate \<Rightarrow> addr \<Rightarrow> addr" where
  "toRaw_addr s a =
     (case raw_flag s a of
        None \<Rightarrow> a
      | Some t \<Rightarrow> if t < a then toRaw_addr s t else a)"
  by pat_completeness auto
termination
  by (relation "measure (\<lambda>(s, a). a)") auto

declare toRaw_addr.simps [simp del]

definition toRaw :: "pstate \<Rightarrow> val \<Rightarrow> val" where
  "toRaw s v = (case v of Obj a \<Rightarrow> Obj (toRaw_addr s a) | _ \<Rightarrow> v)"

definition toReactive :: "val \<Rightarrow> pstate \<Rightarrow> val \<times> pstate" where
  "toReactive v s = (if isObject v then reactive v s else (v, s))"

text \<open>\<open>String(i)\<close> for an index.\<close>

function string_of_nat :: "nat \<Rightarrow> string" where
  "string_of_nat n =
     (if n < 10 then [char_of (48 + n)]
      else string_of_nat (n div 10) @ [char_of (48 + n mod 10)])"
  by pat_completeness auto
termination
  by (relation "measure id") auto

declare string_of_nat.simps [simp del]

text \<open>
  \<open>[[GetOwnProperty]]\<close> of a raw object: the property, whether it is writable, and
  whether it is configurable. \<open>__skip\<close> is defined without \<open>writable\<close>; the \<open>length\<close> of an
  array is never configurable.
\<close>

definition own_property :: "raw_object \<Rightarrow> key \<Rightarrow> (property \<times> bool \<times> bool) option" where
  "own_property ro k =
     (let w = (k \<notin> set (nonwritable ro));
          c = (k \<notin> set (nonconfigurable ro))
      in if k = KStr ''__skip'' \<and> skip ro then Some (DataProperty (Bool True), False, c)
         else if rtype ro = TArray \<and> k = KStr ''length''
           then Some (DataProperty (Num (int (length (elems ro)))), w, False)
         else
           (case (if rtype ro = TArray
                  then find (\<lambda>i. k = KStr (string_of_nat i)) [0..<length (elems ro)]
                  else None) of
              Some i \<Rightarrow> Some (DataProperty (elems ro ! i), w, c)
            | None \<Rightarrow>
                (case map_of (props ro) k of
                   None \<Rightarrow> None
                 | Some pr \<Rightarrow> Some (pr, w, c))))"

text \<open>
  \<open>markRaw\<close> defines \<open>__skip\<close> on the object, which for a proxy is the raw object behind
  it, with \<open>configurable: true\<close>. \<open>Object.defineProperty\<close> throws for a value that is no
  object, for a new property of an object that is not extensible, and for a property
  that is there and not configurable.
\<close>

definition markRaw :: "val \<Rightarrow> pstate \<Rightarrow> js_error + val \<times> pstate" where
  "markRaw v s =
     (case v of
        Obj a \<Rightarrow>
          (case underlying s a of
             None \<Rightarrow> Inl TypeError
           | Some u \<Rightarrow>
               (case heap s ! u of
                  RawObject ro \<Rightarrow>
                    if skip ro then
                      (if KStr ''__skip'' \<in> set (nonconfigurable ro) then Inl TypeError
                       else Inr (v, s))
                    else if extensible ro then
                      Inr (v, s\<lparr>heap := (heap s)[u := RawObject
                             (ro\<lparr>skip := True,
                                 nonconfigurable := removeAll (KStr ''__skip'') (nonconfigurable ro)\<rparr>)]\<rparr>)
                    else Inl TypeError
                | Proxy _ _ \<Rightarrow> Inl TypeError))
      | _ \<Rightarrow> Inl TypeError)"


text \<open>
  Assignment to a property and deletion of a property through a proxy: the \<open>set\<close> and
  the \<open>deleteProperty\<close> trap of the handler object is called. The traps of
  \<open>readonlyHandlers\<close> return \<open>true\<close> and do nothing else. After a trap has returned
  \<open>true\<close>, \<open>[[Set]]\<close> and \<open>[[Delete]]\<close> of a proxy look at the property of the target: the
  assignment throws a \<open>TypeError\<close> if it is a data property that is neither configurable
  nor writable and has another value (compared with SameValue), or an accessor
  property that is not configurable and has no setter; the deletion throws if the
  property is there and is not configurable, or is there and the target is not
  extensible. The properties of a target that is itself a proxy of this library are
  those of the raw object behind it. The result holds the value returned or the error
  thrown, the state, and the calls of \<open>trigger\<close> made. The traps of the mutable handlers
  and the operation of the target itself, which a handler object without the trap
  leaves it to, are not part of this development.
\<close>

datatype outcome =
    Returned bool pstate "(addr \<times> TriggerOpType \<times> key) list"
  | Threw js_error pstate "(addr \<times> TriggerOpType \<times> key) list"
  | Other_trap

definition proxy_set :: "pstate \<Rightarrow> addr \<Rightarrow> key \<Rightarrow> val \<Rightarrow> outcome" where
  "proxy_set s p k v =
     (if p < length (heap s) then
        (case heap s ! p of
           RawObject _ \<Rightarrow> Other_trap
         | Proxy t h \<Rightarrow>
             (case set_t h of
                Some ReadonlySet \<Rightarrow>
                  (case raw_of s t of
                     None \<Rightarrow> Other_trap
                   | Some ro \<Rightarrow>
                       (case own_property ro k of
                          None \<Rightarrow> Returned True s []
                        | Some (pr, w, c) \<Rightarrow>
                            if c then Returned True s []
                            else
                              (case pr of
                                 DataProperty x \<Rightarrow>
                                   if \<not> w \<and> v \<noteq> x then Threw TypeError s []
                                   else Returned True s []
                               | AccessorProperty has_setter \<Rightarrow>
                                   if has_setter then Returned True s []
                                   else Threw TypeError s [])))
              | _ \<Rightarrow> Other_trap))
      else Other_trap)"

definition proxy_delete :: "pstate \<Rightarrow> addr \<Rightarrow> key \<Rightarrow> outcome" where
  "proxy_delete s p k =
     (if p < length (heap s) then
        (case heap s ! p of
           RawObject _ \<Rightarrow> Other_trap
         | Proxy t h \<Rightarrow>
             (case deleteProperty_t h of
                Some ReadonlyDelete \<Rightarrow>
                  (case raw_of s t of
                     None \<Rightarrow> Other_trap
                   | Some ro \<Rightarrow>
                       (case own_property ro k of
                          None \<Rightarrow> Returned True s []
                        | Some (pr, w, c) \<Rightarrow>
                            if \<not> c \<or> \<not> extensible ro then Threw TypeError s []
                            else Returned True s []))
              | _ \<Rightarrow> Other_trap))
      else Other_trap)"


text \<open>The four functions of the interface, and the handler objects and the map of each.\<close>

datatype api = Reactive | ShallowReactive | Readonly | ShallowReadonly

fun call :: "api \<Rightarrow> val \<Rightarrow> pstate \<Rightarrow> val \<times> pstate" where
  "call Reactive = reactive"
| "call ShallowReactive = shallowReactive"
| "call Readonly = readonly"
| "call ShallowReadonly = shallowReadonly"

fun api_readonly :: "api \<Rightarrow> bool" where
  "api_readonly Reactive = False"
| "api_readonly ShallowReactive = False"
| "api_readonly Readonly = True"
| "api_readonly ShallowReadonly = True"

fun api_map :: "api \<Rightarrow> proxy_map" where
  "api_map Reactive = ReactiveMap"
| "api_map ShallowReactive = ShallowReactiveMap"
| "api_map Readonly = ReadonlyMap"
| "api_map ShallowReadonly = ShallowReadonlyMap"

fun api_base :: "api \<Rightarrow> handlers" where
  "api_base Reactive = mutableHandlers"
| "api_base ShallowReactive = shallowReactiveHandlers"
| "api_base Readonly = readonlyHandlers"
| "api_base ShallowReadonly = shallowReadonlyHandlers"

fun api_collection :: "api \<Rightarrow> handlers" where
  "api_collection Reactive = mutableCollectionHandlers"
| "api_collection ShallowReactive = shallowCollectionHandlers"
| "api_collection Readonly = readonlyCollectionHandlers"
| "api_collection ShallowReadonly = shallowReadonlyCollectionHandlers"

text \<open>
  A proxy matches a function of the interface when its handler object is one of the
  function's and it is the proxy that the function's map holds for its target.
\<close>

definition matching_proxy :: "api \<Rightarrow> pstate \<Rightarrow> addr \<Rightarrow> bool" where
  "matching_proxy f s p =
     (p < length (heap s) \<and>
      (case heap s ! p of
         RawObject _ \<Rightarrow> False
       | Proxy t h \<Rightarrow> (h = api_base f \<or> h = api_collection f) \<and> map_get (api_map f) s t = Some p))"

definition marked_skip :: "pstate \<Rightarrow> addr \<Rightarrow> bool" where
  "marked_skip s a = (case raw_of s a of None \<Rightarrow> False | Some ro \<Rightarrow> skip ro)"

lemma call_eq:
  "call f x s =
     (if f = Reactive \<and> isReadonly s x then (x, s)
      else createReactiveObject s x (api_readonly f) (api_base f) (api_collection f) (api_map f))"
  by (cases f)
     (simp_all add: call.simps reactive_def shallowReactive_def readonly_def shallowReadonly_def)

declare call.simps [simp del]

lemma api_getter:
  "get_t (api_base f) = Getter (api_readonly f) (f = ShallowReactive \<or> f = ShallowReadonly)"
  "get_t (api_collection f) = CollectionGetter (api_readonly f) (f = ShallowReactive \<or> f = ShallowReadonly)"
  "map_of_flags (api_readonly f) (f = ShallowReactive \<or> f = ShallowReadonly) = api_map f"
  by (cases f; simp add: mutableHandlers_def readonlyHandlers_def shallowReactiveHandlers_def
      shallowReadonlyHandlers_def mutableCollectionHandlers_def shallowCollectionHandlers_def
      readonlyCollectionHandlers_def shallowReadonlyCollectionHandlers_def collectionHandlers_def
      map_of_flags_def)+

subsection \<open>The state with a new proxy\<close>

definition with_proxy :: "pstate \<Rightarrow> proxy_map \<Rightarrow> addr \<Rightarrow> handlers \<Rightarrow> pstate" where
  "with_proxy s pm a h = map_set pm a (length (heap s)) (s\<lparr>heap := heap s @ [Proxy a h]\<rparr>)"

lemma map_set_fields [simp]:
  "heap (map_set pm t p s) = heap s"
  "map_get pm' (map_set pm t p s) = (if pm' = pm then (map_get pm s)(t \<mapsto> p) else map_get pm' s)"
  by (cases pm; cases pm'; simp)+

lemma with_proxy_heap [simp]: "heap (with_proxy s pm a h) = heap s @ [Proxy a h]"
  by (simp add: with_proxy_def)

lemma map_get_heap_update [simp]: "map_get pm (s\<lparr>heap := hp\<rparr>) = map_get pm s"
  by (cases pm) simp_all

lemma with_proxy_map:
  "map_get pm' (with_proxy s pm a h) =
     (if pm' = pm then (map_get pm s)(a \<mapsto> length (heap s)) else map_get pm' s)"
  by (simp add: with_proxy_def)

lemma with_proxy_old_flags:
  assumes "b < length (heap s)" "map_get pm s a = None"
  shows "raw_flag (with_proxy s pm a h) b = raw_flag s b"
    and "is_reactive_flag (with_proxy s pm a h) b = is_reactive_flag s b"
    and "is_readonly_flag (with_proxy s pm a h) b = is_readonly_flag s b"
  using assms
  by (auto simp: raw_flag_def is_reactive_flag_def is_readonly_flag_def nth_append with_proxy_map
      split: cell.splits get_trap.splits)


subsection \<open>The results of \<open>createReactiveObject\<close>\<close>

definition passes :: "pstate \<Rightarrow> addr \<Rightarrow> bool \<Rightarrow> bool" where
  "passes s a r = (a < length (heap s) \<and> \<not> (raw_flag s a \<noteq> None \<and> \<not> (r \<and> is_reactive_flag s a)))"

lemma cro_unchanged:
  assumes "\<not> (\<exists>a. x = Obj a \<and> passes s a r \<and>
              (map_get pm s a \<noteq> None \<or> getTargetType s a \<noteq> INVALID))"
  shows "createReactiveObject s x r bh ch pm = (x, s)"
  using assms
  by (cases x) (auto simp: createReactiveObject_def passes_def split: option.splits TargetType.splits)

lemma cro_existing:
  assumes "passes s a r" "map_get pm s a = Some p"
  shows "createReactiveObject s (Obj a) r bh ch pm = (Obj p, s)"
  using assms by (auto simp: createReactiveObject_def passes_def)

lemma cro_new:
  assumes "passes s a r" "map_get pm s a = None" "getTargetType s a \<noteq> INVALID"
  shows "createReactiveObject s (Obj a) r bh ch pm =
     (Obj (length (heap s)),
      with_proxy s pm a (if getTargetType s a = COLLECTION then ch else bh))"
  using assms
  by (auto simp: createReactiveObject_def passes_def with_proxy_def Let_def split: TargetType.splits)

lemma passes_with_proxy:
  assumes "a < length (heap s)" "map_get pm s a = None"
  shows "passes (with_proxy s pm a h) a r = passes s a r"
  using assms by (simp add: passes_def with_proxy_old_flags)

lemma cro_stable:
  "createReactiveObject (snd (createReactiveObject s x r bh ch pm)) x r bh ch pm =
   createReactiveObject s x r bh ch pm"
proof (cases "\<exists>a. x = Obj a \<and> passes s a r \<and>
              (map_get pm s a \<noteq> None \<or> getTargetType s a \<noteq> INVALID)")
  case False
  then show ?thesis by (simp add: cro_unchanged)
next
  case True
  then obtain a where a: "x = Obj a" "passes s a r"
    "map_get pm s a \<noteq> None \<or> getTargetType s a \<noteq> INVALID" by blast
  show ?thesis
  proof (cases "map_get pm s a")
    case (Some p)
    then show ?thesis using a by (simp add: cro_existing)
  next
    case None
    then have t: "getTargetType s a \<noteq> INVALID" using a by simp
    define s' where "s' = with_proxy s pm a (if getTargetType s a = COLLECTION then ch else bh)"
    have al: "a < length (heap s)" using a(2) by (simp add: passes_def)
    have "passes s' a r" using a(2) passes_with_proxy [OF al None] by (simp add: s'_def)
    moreover have "map_get pm s' a = Some (length (heap s))"
      by (simp add: s'_def with_proxy_map)
    ultimately have "createReactiveObject s' (Obj a) r bh ch pm = (Obj (length (heap s)), s')"
      by (rule cro_existing)
    then show ?thesis using a(1) cro_new [OF a(2) None t] by (simp add: s'_def)
  qed
qed

lemma cro_isReadonly:
  "isReadonly (snd (createReactiveObject s x r bh ch pm)) x = isReadonly s x"
proof (cases "\<exists>a. x = Obj a \<and> passes s a r \<and>
              (map_get pm s a \<noteq> None \<or> getTargetType s a \<noteq> INVALID)")
  case False
  then show ?thesis by (simp add: cro_unchanged)
next
  case True
  then obtain a where a: "x = Obj a" "passes s a r"
    "map_get pm s a \<noteq> None \<or> getTargetType s a \<noteq> INVALID" by blast
  have al: "a < length (heap s)" using a(2) by (simp add: passes_def)
  show ?thesis
  proof (cases "map_get pm s a")
    case (Some p)
    then show ?thesis using a by (simp add: cro_existing)
  next
    case None
    then have t: "getTargetType s a \<noteq> INVALID" using a by simp
    show ?thesis
      using a(1) cro_new [OF a(2) None t] with_proxy_old_flags(3) [OF al None]
      by (simp add: isReadonly_def)
  qed
qed

lemma call_stable: "call f x (snd (call f x s)) = call f x s"
proof (cases "f = Reactive \<and> isReadonly s x")
  case True
  then show ?thesis by (simp add: call_eq)
next
  case False
  define s1 where "s1 = snd (createReactiveObject s x (api_readonly f) (api_base f)
      (api_collection f) (api_map f))"
  have c: "call f x s = createReactiveObject s x (api_readonly f) (api_base f)
      (api_collection f) (api_map f)"
    using False by (auto simp: call_eq)
  have "\<not> (f = Reactive \<and> isReadonly s1 x)"
    using False by (simp add: s1_def cro_isReadonly)
  then have "call f x s1 = createReactiveObject s1 x (api_readonly f) (api_base f)
      (api_collection f) (api_map f)"
    by (auto simp: call_eq)
  then show ?thesis unfolding c s1_def [symmetric] by (simp add: s1_def cro_stable)
qed

lemma call_non_object: "\<not> isObject x \<Longrightarrow> call f x s = (x, s)"
  by (cases x) (simp_all add: call_eq isObject_def isReadonly_def createReactiveObject_def)

lemma call_matching:
  assumes "matching_proxy f s p"
  shows "call f (Obj p) s = (Obj p, s)"
proof -
  obtain t h where p: "p < length (heap s)" "heap s ! p = Proxy t h"
    "h = api_base f \<or> h = api_collection f" "map_get (api_map f) s t = Some p"
    using assms by (auto simp: matching_proxy_def split: cell.splits)
  have rf: "raw_flag s p = Some t"
    using p api_getter [of f] by (auto simp: raw_flag_def)
  have rr: "is_reactive_flag s p = (\<not> api_readonly f)"
    using p api_getter [of f] by (auto simp: is_reactive_flag_def)
  have "createReactiveObject s (Obj p) (api_readonly f) (api_base f) (api_collection f) (api_map f)
        = (Obj p, s)"
    using p(1) rf rr by (simp add: createReactiveObject_def)
  then show ?thesis by (simp add: call_eq)
qed

lemma call_skip:
  assumes "marked_skip s a" "map_get (api_map f) s a = None"
  shows "call f (Obj a) s = (Obj a, s)"
proof -
  have "getTargetType s a = INVALID"
    using assms(1) by (auto simp: marked_skip_def getTargetType_def split: option.splits)
  then have "createReactiveObject s (Obj a) (api_readonly f) (api_base f) (api_collection f) (api_map f)
        = (Obj a, s)"
    using assms(2) by (intro cro_unchanged) auto
  then show ?thesis by (simp add: call_eq)
qed


lemma call_cached_raw:
  assumes "a < length (heap s)" "heap s ! a = RawObject ro" "map_get (api_map f) s a = Some p"
  shows "call f (Obj a) s = (Obj p, s)"
proof -
  have "passes s a (api_readonly f)" using assms(1,2) by (simp add: passes_def raw_flag_def)
  moreover have "\<not> isReadonly s (Obj a)"
    using assms(1,2) by (simp add: isReadonly_def is_readonly_flag_def)
  ultimately show ?thesis using assms(3) by (simp add: call_eq cro_existing)
qed

text \<open>
  C7, amended: (1) a second call returns what the first returned and changes nothing;
  (2) a value that is no object is returned as it is; (3) so is a proxy that matches the
  function; (4) so is an object with the skip flag for which the function's map holds
  no proxy; (5) for a raw object for which the map holds a proxy, flagged or not, the
  call returns that proxy.
\<close>

theorem proxy_identity:
  "call f x (snd (call f x s)) = call f x s \<and>
   (\<not> isObject x \<longrightarrow> call f x s = (x, s)) \<and>
   (matching_proxy f s p \<longrightarrow> call f (Obj p) s = (Obj p, s)) \<and>
   (marked_skip s a \<and> map_get (api_map f) s a = None \<longrightarrow> call f (Obj a) s = (Obj a, s)) \<and>
   (a < length (heap s) \<and> heap s ! a = RawObject ro \<and> map_get (api_map f) s a = Some p
      \<longrightarrow> call f (Obj a) s = (Obj p, s))"
  using call_stable call_non_object call_matching call_skip call_cached_raw by blast

definition plain_object :: raw_object where
  "plain_object = \<lparr>rtype = TObject, extensible = True, skip = False, props = [], elems = [],
     nonwritable = [], nonconfigurable = []\<rparr>"

definition one_object :: pstate where
  "one_object = \<lparr>heap = [RawObject plain_object], reactiveMap = Map.empty,
     shallowReactiveMap = Map.empty, readonlyMap = Map.empty, shallowReadonlyMap = Map.empty\<rparr>"

definition proxied :: pstate where
  "proxied = one_object\<lparr>heap := [RawObject plain_object, Proxy 0 mutableHandlers],
     reactiveMap := [0 \<mapsto> 1]\<rparr>"

definition proxied_then_marked :: pstate where
  "proxied_then_marked =
     proxied\<lparr>heap := [RawObject (plain_object\<lparr>skip := True\<rparr>), Proxy 0 mutableHandlers]\<rparr>"

lemma underlying_0: "heap s ! 0 = RawObject ro \<Longrightarrow> heap s \<noteq> [] \<Longrightarrow> underlying s 0 = Some 0"
  by (subst underlying.simps) simp

lemma reactive_one_object: "reactive (Obj 0) one_object = (Obj 1, proxied)"
  by (simp add: reactive_def isReadonly_def is_readonly_flag_def one_object_def
      createReactiveObject_def raw_flag_def getTargetType_def raw_of_def underlying_0
      plain_object_def targetTypeMap_def proxied_def)

lemma markRaw_proxied: "markRaw (Obj 0) proxied = Inr (Obj 0, proxied_then_marked)"
  by (simp add: markRaw_def proxied_def one_object_def underlying_0 plain_object_def
      proxied_then_marked_def)

text \<open>
  C7, as the specification states it, fails for an object that is flagged after it was
  made reactive: \<open>reactive(o)\<close>, then \<open>markRaw(o)\<close>, then \<open>reactive(o)\<close> again returns the
  proxy of the first call and not \<open>o\<close>, since the map is asked before the flag is read.
\<close>

theorem proxy_identity_counterexample:
  "reactive (Obj 0) one_object = (Obj 1, proxied) \<and>
   markRaw (Obj 0) proxied = Inr (Obj 0, proxied_then_marked) \<and>
   marked_skip proxied_then_marked 0 \<and>
   call Reactive (Obj 0) proxied_then_marked = (Obj 1, proxied_then_marked)"
proof -
  have "marked_skip proxied_then_marked 0"
    by (simp add: marked_skip_def raw_of_def underlying_0 proxied_then_marked_def proxied_def
        one_object_def)
  moreover have "call Reactive (Obj 0) proxied_then_marked = (Obj 1, proxied_then_marked)"
    by (simp add: call.simps reactive_def isReadonly_def is_readonly_flag_def
        createReactiveObject_def raw_flag_def proxied_then_marked_def proxied_def one_object_def)
  ultimately show ?thesis using reactive_one_object markRaw_proxied by simp
qed

theorem proxy_identity_witness:
  "call Reactive (Obj 0) (snd (call Reactive (Obj 0) one_object)) = (Obj 1, proxied) \<and>
   call Readonly (Num 5) one_object = (Num 5, one_object) \<and>
   matching_proxy Reactive proxied 1 \<and> call Reactive (Obj 1) proxied = (Obj 1, proxied) \<and>
   marked_skip proxied_then_marked 0 \<and>
   call Readonly (Obj 0) proxied_then_marked = (Obj 0, proxied_then_marked) \<and>
   call Reactive (Obj 0) proxied = (Obj 1, proxied)"
proof -
  have m: "matching_proxy Reactive proxied 1"
    by (simp add: matching_proxy_def proxied_def one_object_def)
  have k: "marked_skip proxied_then_marked 0"
    by (simp add: marked_skip_def raw_of_def underlying_0 proxied_then_marked_def proxied_def
        one_object_def)
  have n: "map_get (api_map Readonly) proxied_then_marked 0 = None"
    by (simp add: proxied_then_marked_def proxied_def one_object_def)
  have c: "0 < length (heap proxied) \<and> heap proxied ! 0 = RawObject plain_object \<and>
      map_get (api_map Reactive) proxied 0 = Some 1"
    by (simp add: proxied_def one_object_def)
  have r: "call Reactive (Obj 0) one_object = (Obj 1, proxied)"
    using reactive_one_object by (simp add: call.simps)
  from proxy_identity [of Reactive "Obj 0" one_object 1 0 plain_object]
    proxy_identity [of Readonly "Num 5" one_object 1 0 plain_object]
    proxy_identity [of Reactive "Obj 0" proxied 1 0 plain_object]
    proxy_identity [of Readonly "Obj 0" proxied_then_marked 1 0 plain_object]
  show ?thesis using m k n c r by (simp add: isObject_def)
qed

subsection \<open>Readonly proxies\<close>

lemma getTargetType_raw:
  assumes "a < length (heap s)" "heap s ! a = RawObject ro"
  shows "getTargetType s a = (if skip ro \<or> \<not> extensible ro then INVALID else targetTypeMap (rtype ro))"
proof -
  have "underlying s a = Some a" using assms by (subst underlying.simps) simp
  then show ?thesis using assms by (simp add: getTargetType_def raw_of_def)
qed

lemma created_handlers:
  assumes "a < length (heap s)" "heap s ! a = RawObject ro"
    and "rtype ro = TObject \<or> rtype ro = TArray"
    and "map_get (api_map f) s a = None"
    and "call f (Obj a) s = (Obj p, s1)" "p \<noteq> a"
  shows "p = length (heap s) \<and> heap s1 = heap s @ [Proxy a (api_base f)]"
proof -
  define r where "r = api_readonly f"
  have ps: "passes s a r" using assms(1,2) by (simp add: passes_def raw_flag_def)
  have "\<not> isReadonly s (Obj a)"
    using assms(1,2) by (simp add: isReadonly_def is_readonly_flag_def)
  then have c: "createReactiveObject s (Obj a) r (api_base f) (api_collection f) (api_map f) = (Obj p, s1)"
    using assms(5) by (auto simp: call_eq r_def)
  have tt: "getTargetType s a = (if skip ro \<or> \<not> extensible ro then INVALID else COMMON)"
    using assms(3) getTargetType_raw [OF assms(1,2)] by (auto simp: targetTypeMap_def)
  show ?thesis
  proof (cases "skip ro \<or> \<not> extensible ro")
    case True
    then have "createReactiveObject s (Obj a) r (api_base f) (api_collection f) (api_map f) = (Obj a, s)"
      using tt assms(4) by (intro cro_unchanged) auto
    then show ?thesis using c assms(6) by simp
  next
    case False
    then have "getTargetType s a = COMMON" using tt by simp
    then show ?thesis
      using c cro_new [OF ps assms(4), of "api_base f" "api_collection f"] by auto
  qed
qed

lemma raw_of_raw:
  assumes "a < length (heap s)" "heap s ! a = RawObject ro"
  shows "raw_of s a = Some ro"
proof -
  have "underlying s a = Some a" using assms by (subst underlying.simps) simp
  then show ?thesis using assms by (simp add: raw_of_def)
qed

lemma readonly_set_trap:
  assumes "f = Readonly \<or> f = ShallowReadonly"
    and "p < length (heap s)" "heap s ! p = Proxy a (api_base f)"
    and "a < length (heap s)" "heap s ! a = RawObject ro"
  shows "proxy_set s p k v =
     (case own_property ro k of
        None \<Rightarrow> Returned True s []
      | Some (pr, w, c) \<Rightarrow>
          if c then Returned True s []
          else (case pr of
                  DataProperty x \<Rightarrow>
                    if \<not> w \<and> v \<noteq> x then Threw TypeError s [] else Returned True s []
                | AccessorProperty has_setter \<Rightarrow>
                    if has_setter then Returned True s [] else Threw TypeError s []))"
  using assms(1-3) raw_of_raw [OF assms(4,5)]
  by (auto simp: proxy_set_def readonlyHandlers_def shallowReadonlyHandlers_def)

lemma readonly_delete_trap:
  assumes "f = Readonly \<or> f = ShallowReadonly"
    and "p < length (heap s)" "heap s ! p = Proxy a (api_base f)"
    and "a < length (heap s)" "heap s ! a = RawObject ro"
  shows "proxy_delete s p k =
     (case own_property ro k of
        None \<Rightarrow> Returned True s []
      | Some (pr, w, c) \<Rightarrow>
          if \<not> c \<or> \<not> extensible ro then Threw TypeError s [] else Returned True s [])"
  using assms(1-3) raw_of_raw [OF assms(4,5)]
  by (auto simp: proxy_delete_def readonlyHandlers_def shallowReadonlyHandlers_def)

text \<open>
  C10, amended: a proxy that \<open>readonly\<close> or \<open>shallowReadonly\<close> creates for a plain object
  or an array has the readonly handlers. In every state in which it is this proxy of
  this object, an assignment to a property and a deletion of a property through it
  leave the state (so the target) as it is and call no \<open>trigger\<close>, and either return
  \<open>true\<close> or throw a \<open>TypeError\<close>. They return \<open>true\<close> if the target has no such property.
  For a property that is configurable the assignment returns \<open>true\<close>, and the deletion
  does if the target is extensible and throws otherwise. For a property that is not
  configurable the deletion throws, and the assignment throws if the property is a data
  property that is not writable and has another value, or an accessor property
  without a setter.
\<close>

theorem readonly_proxy_silent:
  assumes "f = Readonly \<or> f = ShallowReadonly"
    and "a < length (heap s)" "heap s ! a = RawObject ro"
    and "rtype ro = TObject \<or> rtype ro = TArray"
    and "map_get (api_map f) s a = None"
    and "call f (Obj a) s = (Obj p, s1)" "p \<noteq> a"
  shows "p < length (heap s1) \<and> heap s1 ! p = Proxy a (api_base f) \<and>
    (\<forall>s2 ro2 k v. p < length (heap s2) \<and> heap s2 ! p = Proxy a (api_base f) \<and>
        heap s2 ! a = RawObject ro2 \<longrightarrow>
       (proxy_set s2 p k v = Returned True s2 [] \<or> proxy_set s2 p k v = Threw TypeError s2 []) \<and>
       (proxy_delete s2 p k = Returned True s2 [] \<or> proxy_delete s2 p k = Threw TypeError s2 []) \<and>
       (own_property ro2 k = None \<longrightarrow>
          proxy_set s2 p k v = Returned True s2 [] \<and> proxy_delete s2 p k = Returned True s2 []) \<and>
       (\<forall>pr w. own_property ro2 k = Some (pr, w, True) \<longrightarrow>
          proxy_set s2 p k v = Returned True s2 [] \<and>
          proxy_delete s2 p k =
            (if extensible ro2 then Returned True s2 [] else Threw TypeError s2 [])) \<and>
       (\<forall>x w. own_property ro2 k = Some (DataProperty x, w, False) \<longrightarrow>
          proxy_delete s2 p k = Threw TypeError s2 [] \<and>
          proxy_set s2 p k v =
            (if \<not> w \<and> v \<noteq> x then Threw TypeError s2 [] else Returned True s2 [])) \<and>
       (\<forall>has_setter w. own_property ro2 k = Some (AccessorProperty has_setter, w, False) \<longrightarrow>
          proxy_delete s2 p k = Threw TypeError s2 [] \<and>
          proxy_set s2 p k v =
            (if has_setter then Returned True s2 [] else Threw TypeError s2 [])))"
proof -
  note c = created_handlers [OF assms(2-7)]
  have ap: "a < p" using c assms(2) by simp
  have a: "p < length (heap s1)" "heap s1 ! p = Proxy a (api_base f)" using c by simp_all
  have "(proxy_set s2 p k v = Returned True s2 [] \<or> proxy_set s2 p k v = Threw TypeError s2 []) \<and>
       (proxy_delete s2 p k = Returned True s2 [] \<or> proxy_delete s2 p k = Threw TypeError s2 []) \<and>
       (own_property ro2 k = None \<longrightarrow>
          proxy_set s2 p k v = Returned True s2 [] \<and> proxy_delete s2 p k = Returned True s2 []) \<and>
       (\<forall>pr w. own_property ro2 k = Some (pr, w, True) \<longrightarrow>
          proxy_set s2 p k v = Returned True s2 [] \<and>
          proxy_delete s2 p k =
            (if extensible ro2 then Returned True s2 [] else Threw TypeError s2 [])) \<and>
       (\<forall>x w. own_property ro2 k = Some (DataProperty x, w, False) \<longrightarrow>
          proxy_delete s2 p k = Threw TypeError s2 [] \<and>
          proxy_set s2 p k v =
            (if \<not> w \<and> v \<noteq> x then Threw TypeError s2 [] else Returned True s2 [])) \<and>
       (\<forall>has_setter w. own_property ro2 k = Some (AccessorProperty has_setter, w, False) \<longrightarrow>
          proxy_delete s2 p k = Threw TypeError s2 [] \<and>
          proxy_set s2 p k v =
            (if has_setter then Returned True s2 [] else Threw TypeError s2 []))"
    if h: "p < length (heap s2) \<and> heap s2 ! p = Proxy a (api_base f) \<and> heap s2 ! a = RawObject ro2"
    for s2 ro2 k v
  proof -
    have al: "a < length (heap s2)" using h ap by simp
    note st = readonly_set_trap [OF assms(1) _ _ al, of p ro2 k v]
    note dt = readonly_delete_trap [OF assms(1) _ _ al, of p ro2 k]
    show ?thesis
      using st dt h by (auto split: option.splits property.splits)
  qed
  then show ?thesis using a by blast
qed

lemma readonly_one_object:
  "call Readonly (Obj 0) one_object =
     (Obj 1, one_object\<lparr>heap := [RawObject plain_object, Proxy 0 readonlyHandlers],
        readonlyMap := [0 \<mapsto> 1]\<rparr>)"
  by (simp add: call.simps readonly_def createReactiveObject_def raw_flag_def one_object_def
      getTargetType_def raw_of_def underlying_0 plain_object_def targetTypeMap_def)

definition with_x :: raw_object where
  "with_x = plain_object\<lparr>props := [(KStr ''x'', DataProperty (Num 1))]\<rparr>"

definition readonly_of :: "raw_object \<Rightarrow> pstate" where
  "readonly_of ro = one_object\<lparr>heap := [RawObject ro, Proxy 0 readonlyHandlers],
     readonlyMap := [0 \<mapsto> 1]\<rparr>"

theorem readonly_proxy_silent_witness:
  "proxy_set (readonly_of plain_object) 1 (KStr ''x'') (Num 1) =
     Returned True (readonly_of plain_object) [] \<and>
   proxy_delete (readonly_of plain_object) 1 (KStr ''x'') =
     Returned True (readonly_of plain_object) [] \<and>
   proxy_set (readonly_of with_x) 1 (KStr ''x'') (Num 2) = Returned True (readonly_of with_x) [] \<and>
   proxy_delete (readonly_of with_x) 1 (KStr ''x'') = Returned True (readonly_of with_x) [] \<and>
   proxy_delete (readonly_of (with_x\<lparr>extensible := False\<rparr>)) 1 (KStr ''x'') =
     Threw TypeError (readonly_of (with_x\<lparr>extensible := False\<rparr>)) []"
proof -
  have r: "call Readonly (Obj 0) one_object = (Obj 1, readonly_of plain_object)"
    using readonly_one_object by (simp add: readonly_of_def)
  have o: "0 < length (heap one_object)" "heap one_object ! 0 = RawObject plain_object"
    "rtype plain_object = TObject \<or> rtype plain_object = TArray"
    "map_get (api_map Readonly) one_object 0 = None"
    by (simp_all add: one_object_def plain_object_def)
  have f: "Readonly = Readonly \<or> Readonly = ShallowReadonly" by simp
  have ne: "(1 :: nat) \<noteq> 0" by simp
  note t = readonly_proxy_silent [OF f o r ne, THEN conjunct2, THEN conjunct2, rule_format]
  have h: "1 < length (heap (readonly_of ro)) \<and>
      heap (readonly_of ro) ! 1 = Proxy 0 (api_base Readonly) \<and>
      heap (readonly_of ro) ! 0 = RawObject ro" for ro
    by (simp add: readonly_of_def one_object_def)
  have p0: "own_property plain_object (KStr ''x'') = None"
    by (simp add: own_property_def plain_object_def)
  have p1: "own_property with_x (KStr ''x'') = Some (DataProperty (Num 1), True, True)"
    by (simp add: own_property_def with_x_def plain_object_def)
  have p2: "own_property (with_x\<lparr>extensible := False\<rparr>) (KStr ''x'') =
      Some (DataProperty (Num 1), True, True)"
    by (simp add: own_property_def with_x_def plain_object_def)
  have e: "\<not> extensible (with_x\<lparr>extensible := False\<rparr>)" "extensible with_x"
    by (simp_all add: with_x_def plain_object_def)
  show ?thesis
    using t [OF h [of plain_object], of "KStr ''x''" "Num 1"]
      t [OF h [of with_x], of "KStr ''x''" "Num 2"]
      t [OF h [of "with_x\<lparr>extensible := False\<rparr>"], of "KStr ''x''" "Num 2"]
      p0 p1 p2 e
    by auto
qed

text \<open>
  C10, as stated, fails for a property that is not configurable: for the object \<open>o\<close> that
  \<open>Object.defineProperty({}, "x", {value: 1})\<close> returns, \<open>readonly(o)\<close> creates a proxy, and
  through it both \<open>delete p.x\<close> and \<open>p.x = 2\<close> throw a \<open>TypeError\<close>, the traps having returned
  \<open>true\<close>.
\<close>

definition fixed_x :: raw_object where
  "fixed_x = with_x\<lparr>nonwritable := [KStr ''x''], nonconfigurable := [KStr ''x'']\<rparr>"

theorem readonly_proxy_throws_counterexample:
  "call Readonly (Obj 0) (one_object\<lparr>heap := [RawObject fixed_x]\<rparr>) = (Obj 1, readonly_of fixed_x) \<and>
   proxy_delete (readonly_of fixed_x) 1 (KStr ''x'') = Threw TypeError (readonly_of fixed_x) [] \<and>
   proxy_set (readonly_of fixed_x) 1 (KStr ''x'') (Num 2) = Threw TypeError (readonly_of fixed_x) []"
proof -
  have p: "own_property fixed_x (KStr ''x'') = Some (DataProperty (Num 1), False, False)"
    by (simp add: own_property_def fixed_x_def with_x_def plain_object_def)
  have "call Readonly (Obj 0) (one_object\<lparr>heap := [RawObject fixed_x]\<rparr>) = (Obj 1, readonly_of fixed_x)"
    by (simp add: call.simps readonly_def createReactiveObject_def raw_flag_def one_object_def
      getTargetType_def raw_of_def underlying_0 fixed_x_def with_x_def plain_object_def
      targetTypeMap_def readonly_of_def)
  moreover have h: "Readonly = Readonly \<or> Readonly = ShallowReadonly"
    "1 < length (heap (readonly_of fixed_x))"
    "heap (readonly_of fixed_x) ! 1 = Proxy 0 (api_base Readonly)"
    "0 < length (heap (readonly_of fixed_x))"
    "heap (readonly_of fixed_x) ! 0 = RawObject fixed_x"
    by (simp_all add: readonly_of_def one_object_def)
  moreover have "proxy_delete (readonly_of fixed_x) 1 (KStr ''x'') =
      Threw TypeError (readonly_of fixed_x) []"
    using readonly_delete_trap [OF h, of "KStr ''x''"] p by simp
  moreover have "proxy_set (readonly_of fixed_x) 1 (KStr ''x'') (Num 2) =
      Threw TypeError (readonly_of fixed_x) []"
    using readonly_set_trap [OF h, of "KStr ''x''" "Num 2"] p by simp
  ultimately show ?thesis by simp
qed


section \<open>References (packages/reactivity/index.js, class Reference)\<close>

text \<open>
  A reference of \<open>ref\<close> or \<open>shallowRef\<close>: the private fields \<open>#isShallow\<close>, \<open>#value\<close> and
  \<open>#rawValue\<close>, and the field \<open>dep\<close>, which is undefined until the value is read by an
  effect. The state is that of the proxies and that of the effects.
\<close>

record reference =
  ref_isShallow :: bool
  ref_value :: val
  ref_rawValue :: val
  ref_dep :: "depid option"

text \<open>\<open>hasChanged\<close> of shared/src/utils.js.\<close>

definition hasChanged :: "val \<Rightarrow> val \<Rightarrow> bool" where
  "hasChanged value oldValue =
     (\<not> strict_eq value oldValue \<and> (strict_eq value value \<or> strict_eq oldValue oldValue))"

text \<open>\<open>triggerRefValue\<close>; \<open>toRaw\<close> of a reference is the reference.\<close>

definition triggerRefValue :: "reference \<Rightarrow> estate \<Rightarrow> estate" where
  "triggerRefValue r es =
     (case ref_dep r of
        None \<Rightarrow> es
      | Some d \<Rightarrow> triggerEffects es (subs (dep_store es ! d)))"

text \<open>The constructor, for a value that is no reference.\<close>

definition new_reference :: "val \<Rightarrow> bool \<Rightarrow> pstate \<Rightarrow> reference \<times> pstate" where
  "new_reference rawValue isShallow s =
     (let (v, s1) = (if isShallow then (rawValue, s) else toReactive rawValue s)
      in (\<lparr>ref_isShallow = isShallow, ref_value = v,
           ref_rawValue = (if isShallow then rawValue else toRaw s1 rawValue),
           ref_dep = None\<rparr>, s1))"

text \<open>The setter of \<open>value\<close>.\<close>

definition set_value :: "val \<Rightarrow> reference \<times> pstate \<times> estate \<Rightarrow> reference \<times> pstate \<times> estate" where
  "set_value newVal st =
     (case st of (r, ps, es) \<Rightarrow>
        (let newVal' = (if ref_isShallow r then newVal else toRaw ps newVal) in
         if hasChanged newVal' (ref_rawValue r) then
           (let (v, ps') = (if ref_isShallow r then (newVal', ps) else toReactive newVal' ps);
                r' = r\<lparr>ref_rawValue := newVal', ref_value := v\<rparr>
            in (r', ps', triggerRefValue r' es))
         else (r, ps, es)))"

text \<open>The value that the setter compares with the raw value of the reference.\<close>

definition compared :: "reference \<Rightarrow> pstate \<Rightarrow> val \<Rightarrow> val" where
  "compared r ps newVal = (if ref_isShallow r then newVal else toRaw ps newVal)"

lemma compared_primitive: "\<not> isObject newVal \<Longrightarrow> compared r ps newVal = newVal"
  by (cases newVal) (simp_all add: compared_def toRaw_def isObject_def)

lemma hasChanged_NaN: "\<not> hasChanged NaN NaN"
  by (simp add: hasChanged_def strict_eq_def)

lemma hasChanged_iff: "hasChanged a b \<longleftrightarrow> a \<noteq> b"
  by (auto simp: hasChanged_def strict_eq_def)

lemma set_value_same:
  assumes "\<not> hasChanged (compared r ps newVal) (ref_rawValue r)"
  shows "set_value newVal (r, ps, es) = (r, ps, es)"
  using assms by (simp add: set_value_def compared_def Let_def)

lemma set_value_changed:
  assumes "hasChanged (compared r ps newVal) (ref_rawValue r)"
    and "set_value newVal (r, ps, es) = (r', ps', es')"
  shows "ref_rawValue r' = compared r ps newVal" "ref_dep r' = ref_dep r"
    "ref_isShallow r' = ref_isShallow r"
    "es' = triggerRefValue r es"
  using assms
  by (auto simp: set_value_def compared_def Let_def triggerRefValue_def split: prod.splits if_splits)

lemma triggerRefValue_calls:
  assumes "ref_dep r = Some d" "distinct (subs (dep_store es ! d))"
  shows "calls_of e (invoked (triggerRefValue r es)) =
     calls_of e (invoked es) + (if e \<in> set (subs (dep_store es ! d)) \<and> fires es e then 1 else 0)"
  using assms by (simp add: triggerRefValue_def calls_of_triggerEffects)

text \<open>
  C6, amended. The setter compares, with \<open>hasChanged\<close>, the stored raw value with the
  value assigned, or for a reference that is not shallow with \<open>toRaw\<close> of it, which for a
  value that is no object is the value assigned. If \<open>hasChanged\<close> does not hold, as for \<open>NaN\<close>
  assigned where \<open>NaN\<close> is stored, the reference and the state stay as they are, so that no
  effect is called. If it holds, the raw value stored is the new one, and
  \<open>triggerEffects\<close> is called for the dep of the reference: every effect of the dep,
  the running one apart unless it allows recursion, is called once.
\<close>

theorem ref_set_value:
  "(\<not> isObject newVal \<longrightarrow> compared r ps newVal = newVal) \<and>
   (ref_rawValue r = NaN \<longrightarrow> set_value NaN (r, ps, es) = (r, ps, es)) \<and>
   (\<not> hasChanged (compared r ps newVal) (ref_rawValue r) \<longrightarrow>
      set_value newVal (r, ps, es) = (r, ps, es)) \<and>
   (hasChanged (compared r ps newVal) (ref_rawValue r) \<longrightarrow>
      (\<exists>r' ps'. set_value newVal (r, ps, es) = (r', ps', triggerRefValue r es) \<and>
         ref_rawValue r' = compared r ps newVal \<and> ref_dep r' = ref_dep r)) \<and>
   (\<forall>d. ref_dep r = Some d \<longrightarrow>
      triggerRefValue r es = triggerEffects es (subs (dep_store es ! d))) \<and>
   (\<forall>d e. ref_dep r = Some d \<and> distinct (subs (dep_store es ! d)) \<longrightarrow>
      calls_of e (invoked (triggerRefValue r es)) =
        calls_of e (invoked es) +
          (if e \<in> set (subs (dep_store es ! d)) \<and> fires es e then 1 else 0))"
proof (intro conjI impI allI)
  show "compared r ps newVal = newVal" if "\<not> isObject newVal"
    using that by (rule compared_primitive)
  show "set_value NaN (r, ps, es) = (r, ps, es)" if "ref_rawValue r = NaN"
    using that by (intro set_value_same) (simp add: compared_primitive isObject_def hasChanged_NaN)
  show "set_value newVal (r, ps, es) = (r, ps, es)"
    if "\<not> hasChanged (compared r ps newVal) (ref_rawValue r)"
    using that by (rule set_value_same)
  show "\<exists>r' ps'. set_value newVal (r, ps, es) = (r', ps', triggerRefValue r es) \<and>
          ref_rawValue r' = compared r ps newVal \<and> ref_dep r' = ref_dep r"
    if h: "hasChanged (compared r ps newVal) (ref_rawValue r)"
  proof -
    obtain r' ps' es' where s: "set_value newVal (r, ps, es) = (r', ps', es')"
      by (cases "set_value newVal (r, ps, es)") auto
    show ?thesis
      using set_value_changed [OF h s] s by simp
  qed
  show "triggerRefValue r es = triggerEffects es (subs (dep_store es ! d))"
    if "ref_dep r = Some d" for d
    using that by (simp add: triggerRefValue_def)
  show "calls_of e (invoked (triggerRefValue r es)) =
        calls_of e (invoked es) +
          (if e \<in> set (subs (dep_store es ! d)) \<and> fires es e then 1 else 0)"
    if "ref_dep r = Some d \<and> distinct (subs (dep_store es ! d))" for d e
    using that triggerRefValue_calls by blast
qed


definition nan_ref :: reference where
  "nan_ref = \<lparr>ref_isShallow = False, ref_value = NaN, ref_rawValue = NaN, ref_dep = Some 0\<rparr>"

definition watched :: estate where
  "watched = init_estate\<lparr>dep_store := [\<lparr>subs = [0], dep_w = 0, dep_n = 0\<rparr>]\<rparr>"

theorem ref_set_value_witness:
  "set_value NaN (nan_ref, one_object, watched) = (nan_ref, one_object, watched) \<and>
   ref_rawValue (fst (set_value (Num 1) (nan_ref, one_object, watched))) = Num 1 \<and>
   invoked (snd (snd (set_value (Num 1) (nan_ref, one_object, watched)))) = [Run 0] \<and>
   calls_of 0 (invoked (snd (snd (set_value (Num 1) (nan_ref, one_object, watched))))) = 1"
proof -
  note a = ref_set_value [of NaN nan_ref one_object watched]
  note b = ref_set_value [of "Num 1" nan_ref one_object watched]
  have h: "hasChanged (compared nan_ref one_object (Num 1)) (ref_rawValue nan_ref)"
    using b by (simp add: isObject_def nan_ref_def hasChanged_def strict_eq_def)
  have d: "ref_dep nan_ref = Some 0 \<and> distinct (subs (dep_store watched ! 0))"
    by (simp add: nan_ref_def watched_def)
  have f: "fires watched 0"
    by (simp add: fires_def watched_def init_estate_def activeEffect_def)
  have i: "invoked (triggerEffects watched [0]) = [Run 0]"
    by (simp add: triggerEffects_invoked f call_of_def) (simp add: watched_def init_estate_def)
  obtain r' ps' where s: "set_value (Num 1) (nan_ref, one_object, watched) =
      (r', ps', triggerRefValue nan_ref watched)" "ref_rawValue r' = Num 1"
    using b h by (auto simp: isObject_def)
  have "triggerRefValue nan_ref watched = triggerEffects watched [0]"
    using b d by (simp add: watched_def)
  then show ?thesis
    using a s i by (simp add: nan_ref_def calls_of_def)
qed


text \<open>
  C6, as stated, fails for a reference that is not shallow when a proxy is assigned:
  with \<open>r = ref(o)\<close>, which stores \<open>o\<close> as its raw value, \<open>hasChanged\<close> holds of \<open>reactive(o)\<close>
  and \<open>o\<close>, but the assignment \<open>r.value = reactive(o)\<close> updates nothing and calls no
  effect, since the setter compares \<open>toRaw\<close> of the value assigned.
\<close>

definition object_ref :: reference where
  "object_ref = \<lparr>ref_isShallow = False, ref_value = Obj 1, ref_rawValue = Obj 0, ref_dep = Some 0\<rparr>"

theorem ref_set_proxy_counterexample:
  "new_reference (Obj 0) False one_object = (object_ref\<lparr>ref_dep := None\<rparr>, proxied) \<and>
   reactive (Obj 0) proxied = (Obj 1, proxied) \<and>
   hasChanged (Obj 1) (ref_rawValue object_ref) \<and>
   set_value (Obj 1) (object_ref, proxied, watched) = (object_ref, proxied, watched)"
proof -
  have r0: "raw_flag proxied 0 = None"
    by (simp add: raw_flag_def proxied_def one_object_def)
  have r1: "raw_flag proxied 1 = Some 0"
    by (simp add: raw_flag_def proxied_def one_object_def mutableHandlers_def map_of_flags_def)
  have t0: "toRaw proxied (Obj 0) = Obj 0"
    using r0 by (simp add: toRaw_def) (subst toRaw_addr.simps, simp)
  have t1: "toRaw proxied (Obj 1) = Obj 0"
    using r0 r1 by (simp add: toRaw_def) (subst toRaw_addr.simps, simp, subst toRaw_addr.simps, simp)
  have a: "new_reference (Obj 0) False one_object = (object_ref\<lparr>ref_dep := None\<rparr>, proxied)"
    using reactive_one_object t0
    by (simp add: new_reference_def toReactive_def isObject_def object_ref_def)
  have b: "reactive (Obj 0) proxied = (Obj 1, proxied)"
    by (simp add: reactive_def isReadonly_def is_readonly_flag_def createReactiveObject_def
        raw_flag_def proxied_def one_object_def)
  have c: "hasChanged (Obj 1) (ref_rawValue object_ref)"
    by (simp add: hasChanged_def strict_eq_def object_ref_def)
  have d: "set_value (Obj 1) (object_ref, proxied, watched) = (object_ref, proxied, watched)"
    using t1 by (simp add: set_value_def Let_def hasChanged_def strict_eq_def object_ref_def)
  show ?thesis using a b c d by simp
qed


section \<open>Searching an array through a proxy (packages/reactivity/index.js, createArrayOperations)\<close>

text \<open>
  The arguments of \<open>includes\<close>, \<open>indexOf\<close> and \<open>lastIndexOf\<close>: the element searched for
  and, if given, the index to start from, an integer.
\<close>

datatype search_method = Includes | IndexOf | LastIndexOf

datatype search_args = Search val | SearchFrom val int

text \<open>\<open>args.map(toRaw)\<close>; \<open>toRaw\<close> of a number is the number.\<close>

fun raw_args :: "pstate \<Rightarrow> search_args \<Rightarrow> search_args" where
  "raw_args ps (Search x) = Search (toRaw ps x)"
| "raw_args ps (SearchFrom x n) = SearchFrom (toRaw ps x) n"

text \<open>
  The methods of \<open>Array.prototype\<close> on an array without holes. \<open>includes\<close> compares with
  SameValueZero, for which \<open>NaN\<close> is equal to \<open>NaN\<close>; the other two with \<open>===\<close>. A
  negative start index counts from the end.
\<close>

definition start_index :: "nat \<Rightarrow> int \<Rightarrow> nat" where
  "start_index len n = (if 0 \<le> n then nat n else nat (int len + n))"

definition first_index :: "val list \<Rightarrow> val \<Rightarrow> nat \<Rightarrow> val" where
  "first_index xs x k =
     (case find (\<lambda>i. strict_eq (xs ! i) x) [k..<length xs] of
        None \<Rightarrow> Num (- 1)
      | Some i \<Rightarrow> Num (int i))"

definition last_index :: "val list \<Rightarrow> val \<Rightarrow> int \<Rightarrow> val" where
  "last_index xs x k =
     (case find (\<lambda>i. strict_eq (xs ! i) x) (rev [0..<nat (k + 1)]) of
        None \<Rightarrow> Num (- 1)
      | Some i \<Rightarrow> Num (int i))"

fun native :: "search_method \<Rightarrow> val list \<Rightarrow> search_args \<Rightarrow> val" where
  "native Includes xs (Search x) = Bool (x \<in> set xs)"
| "native Includes xs (SearchFrom x n) = Bool (x \<in> set (drop (start_index (length xs) n) xs))"
| "native IndexOf xs (Search x) = first_index xs x 0"
| "native IndexOf xs (SearchFrom x n) = first_index xs x (start_index (length xs) n)"
| "native LastIndexOf xs (Search x) = last_index xs x (int (length xs) - 1)"
| "native LastIndexOf xs (SearchFrom x n) =
     last_index xs x (if 0 \<le> n then min n (int (length xs) - 1) else int (length xs) + n)"

text \<open>
  Reading \<open>length\<close> through a proxy: the \<open>get\<close> trap of \<open>createGetter\<close> reads the
  property of the target, and tracks it unless the proxy is readonly. Only arrays are
  read here.
\<close>

function get_length :: "pstate \<Rightarrow> estate \<Rightarrow> addr \<Rightarrow> (nat \<times> estate) option" where
  "get_length ps es a =
     (if a < length (heap ps) then
        (case heap ps ! a of
           RawObject ro \<Rightarrow> if rtype ro = TArray then Some (length (elems ro), es) else None
         | Proxy t h \<Rightarrow>
             (case get_t h of
                Getter r sh \<Rightarrow>
                  if t < a then
                    (case get_length ps es t of
                       None \<Rightarrow> None
                     | Some (l, es1) \<Rightarrow> Some (l, if r then es1 else track es1 t (KStr ''length'')))
                  else None
              | CollectionGetter r sh \<Rightarrow> None))
      else None)"
  by pat_completeness auto
termination
  by (relation "measure (\<lambda>(ps, es, a). a)") auto

declare get_length.simps [simp del]

text \<open>
  The function that \<open>createArrayOperations\<close> defines for the three methods, called with
  \<open>this\<close>. The result is the value returned and the state of the effects.
\<close>

definition array_search ::
  "search_method \<Rightarrow> addr \<Rightarrow> search_args \<Rightarrow> pstate \<Rightarrow> estate \<Rightarrow> (val \<times> estate) option" where
  "array_search key this args ps es =
     (let arr = toRaw_addr ps this in
      case get_length ps es this of
        None \<Rightarrow> None
      | Some (l, es1) \<Rightarrow>
          (if arr < length (heap ps) then
             (case heap ps ! arr of
                Proxy _ _ \<Rightarrow> None
              | RawObject ro \<Rightarrow>
                  (let es2 = foldl (\<lambda>s i. track s arr (KStr (string_of_nat i))) es1 [0..<l];
                       res = native key (elems ro) args
                   in if strict_eq res (Num (- 1)) \<or> strict_eq res (Bool False)
                      then Some (native key (elems ro) (raw_args ps args), es2)
                      else Some (res, es2)))
           else None))"


subsection \<open>A reactive proxy of an array\<close>

text \<open>
  \<open>a\<close> is a proxy that \<open>reactive\<close> or \<open>shallowReactive\<close> made for the raw array \<open>t\<close> with
  the elements \<open>xs\<close>.
\<close>

definition reactive_array :: "pstate \<Rightarrow> addr \<Rightarrow> addr \<Rightarrow> val list \<Rightarrow> bool" where
  "reactive_array ps a t xs \<longleftrightarrow>
     a < length (heap ps) \<and> t < a \<and>
     (case heap ps ! a of
        RawObject _ \<Rightarrow> False
      | Proxy t' h \<Rightarrow> t' = t \<and>
          (h = mutableHandlers \<and> reactiveMap ps t = Some a \<or>
           h = shallowReactiveHandlers \<and> shallowReactiveMap ps t = Some a)) \<and>
     (case heap ps ! t of
        RawObject ro \<Rightarrow> rtype ro = TArray \<and> elems ro = xs
      | Proxy _ _ \<Rightarrow> False)"

definition search_reads :: "addr \<Rightarrow> nat \<Rightarrow> (addr \<times> key) list" where
  "search_reads t l = (t, KStr ''length'') # map (\<lambda>i. (t, KStr (string_of_nat i))) [0..<l]"

definition failed :: "val \<Rightarrow> bool" where
  "failed res = (res = Num (- 1) \<or> res = Bool False)"

lemma reactive_array_cells:
  assumes "reactive_array ps a t xs"
  obtains h ro sh where "a < length (heap ps)" "t < a" "heap ps ! a = Proxy t h"
    "get_t h = Getter False sh" "map_get (map_of_flags False sh) ps t = Some a"
    "heap ps ! t = RawObject ro" "rtype ro = TArray" "elems ro = xs"
proof -
  from assms obtain h ro where c: "a < length (heap ps)" "t < a" "heap ps ! a = Proxy t h"
    "h = mutableHandlers \<and> reactiveMap ps t = Some a \<or>
       h = shallowReactiveHandlers \<and> shallowReactiveMap ps t = Some a"
    "heap ps ! t = RawObject ro" "rtype ro = TArray" "elems ro = xs"
    by (auto simp: reactive_array_def split: cell.splits)
  from c(4) have "\<exists>sh. get_t h = Getter False sh \<and> map_get (map_of_flags False sh) ps t = Some a"
  proof
    assume "h = mutableHandlers \<and> reactiveMap ps t = Some a"
    then have "get_t h = Getter False False \<and> map_get (map_of_flags False False) ps t = Some a"
      by (simp add: mutableHandlers_def map_of_flags_def)
    then show ?thesis by blast
  next
    assume "h = shallowReactiveHandlers \<and> shallowReactiveMap ps t = Some a"
    then have "get_t h = Getter False True \<and> map_get (map_of_flags False True) ps t = Some a"
      by (simp add: shallowReactiveHandlers_def map_of_flags_def)
    then show ?thesis by blast
  qed
  then show ?thesis using c that by blast
qed

lemma toRaw_reactive_array:
  assumes "reactive_array ps a t xs"
  shows "toRaw_addr ps a = t"
proof -
  from assms obtain h ro sh where c: "a < length (heap ps)" "t < a" "heap ps ! a = Proxy t h"
    "get_t h = Getter False sh" "map_get (map_of_flags False sh) ps t = Some a"
    "heap ps ! t = RawObject ro"
    by (rule reactive_array_cells)
  have "raw_flag ps a = Some t" using c by (simp add: raw_flag_def)
  moreover have "raw_flag ps t = None" using c by (simp add: raw_flag_def)
  ultimately show ?thesis
    using c(2) by (subst toRaw_addr.simps, simp, subst toRaw_addr.simps, simp)
qed

lemma get_length_reactive_array:
  assumes "reactive_array ps a t xs"
  shows "get_length ps es a = Some (length xs, track es t (KStr ''length''))"
proof -
  from assms obtain h ro sh where c: "a < length (heap ps)" "t < a" "heap ps ! a = Proxy t h"
    "get_t h = Getter False sh" "map_get (map_of_flags False sh) ps t = Some a"
    "heap ps ! t = RawObject ro" "rtype ro = TArray" "elems ro = xs"
    by (rule reactive_array_cells)
  have "get_length ps es t = Some (length xs, es)"
    using c by (subst get_length.simps) simp
  then show ?thesis using c by (subst get_length.simps) simp
qed

lemma run_fn_search_reads:
  "run_fn es (search_reads t l) =
     foldl (\<lambda>s i. track s t (KStr (string_of_nat i))) (track es t (KStr ''length'')) [0..<l]"
  by (simp add: run_fn_def search_reads_def foldl_map)

lemma array_search_eq:
  assumes "reactive_array ps a t xs"
  shows "array_search key a args ps es =
     Some (if failed (native key xs args) then native key xs (raw_args ps args)
           else native key xs args,
           run_fn es (search_reads t (length xs)))"
proof -
  from assms obtain h ro sh where c: "a < length (heap ps)" "t < a"
    "heap ps ! t = RawObject ro" "rtype ro = TArray" "elems ro = xs"
    by (rule reactive_array_cells)
  have f: "(strict_eq res (Num (- 1)) \<or> strict_eq res (Bool False)) = failed res" for res
    by (auto simp: strict_eq_def failed_def)
  show ?thesis
    using c by (simp add: array_search_def toRaw_reactive_array [OF assms]
        get_length_reactive_array [OF assms] run_fn_search_reads Let_def f)
qed

subsection \<open>The search for an element that is stored\<close>

lemma find_index_Some:
  assumes "i \<in> set is" "P i"
  shows "\<exists>j. find P is = Some j \<and> j \<in> set is \<and> P j"
  using assms by (induction "is") auto

lemma find_index_SomeD:
  assumes "find P is = Some j"
  shows "j \<in> set is \<and> P j"
  using assms by (induction "is") (auto split: if_splits)

lemma first_index_found:
  assumes "x \<in> set xs" "x \<noteq> NaN"
  shows "\<exists>i < length xs. first_index xs x 0 = Num (int i) \<and> xs ! i = x"
proof -
  from assms(1) obtain i where i: "i < length xs" "xs ! i = x" by (auto simp: in_set_conv_nth)
  then have "i \<in> set [0..<length xs]" "strict_eq (xs ! i) x"
    using assms(2) by (simp_all add: strict_eq_def)
  from find_index_Some [of i "[0..<length xs]" "\<lambda>i. strict_eq (xs ! i) x", OF this]
  show ?thesis by (auto simp: first_index_def strict_eq_def)
qed

lemma last_index_found:
  assumes "x \<in> set xs" "x \<noteq> NaN"
  shows "\<exists>i < length xs. last_index xs x (int (length xs) - 1) = Num (int i) \<and> xs ! i = x"
proof -
  from assms(1) obtain i where i: "i < length xs" "xs ! i = x" by (auto simp: in_set_conv_nth)
  then have "i \<in> set (rev [0..<length xs])" "strict_eq (xs ! i) x"
    using assms(2) by (simp_all add: strict_eq_def)
  from find_index_Some [of i "rev [0..<length xs]" "\<lambda>i. strict_eq (xs ! i) x", OF this]
  show ?thesis by (auto simp: last_index_def strict_eq_def)
qed

lemma first_index_cases:
  "first_index xs x k = Num (- 1) \<or> (\<exists>i < length xs. first_index xs x k = Num (int i) \<and> xs ! i = x)"
proof (cases "find (\<lambda>i. strict_eq (xs ! i) x) [k..<length xs]")
  case None
  then show ?thesis by (simp add: first_index_def)
next
  case (Some i)
  then have "i \<in> set [k..<length xs] \<and> strict_eq (xs ! i) x"
    by (rule find_index_SomeD)
  then show ?thesis using Some by (auto simp: first_index_def strict_eq_def)
qed

lemma last_index_cases:
  "last_index xs x (int (length xs) - 1) = Num (- 1) \<or>
   (\<exists>i < length xs. last_index xs x (int (length xs) - 1) = Num (int i) \<and> xs ! i = x)"
proof (cases "find (\<lambda>i. strict_eq (xs ! i) x) (rev [0..<length xs])")
  case None
  then show ?thesis by (simp add: last_index_def)
next
  case (Some i)
  then have "i \<in> set (rev [0..<length xs]) \<and> strict_eq (xs ! i) x"
    by (rule find_index_SomeD)
  then show ?thesis using Some by (auto simp: last_index_def strict_eq_def)
qed

text \<open>The result of a search, without a start index, that found the element \<open>x\<close>.\<close>

fun found :: "search_method \<Rightarrow> val list \<Rightarrow> val \<Rightarrow> val \<Rightarrow> bool" where
  "found Includes xs x res = (res = Bool True \<and> x \<in> set xs)"
| "found IndexOf xs x res = (case res of Num i \<Rightarrow> 0 \<le> i \<and> nat i < length xs \<and> xs ! nat i = x | _ \<Rightarrow> False)"
| "found LastIndexOf xs x res = (case res of Num i \<Rightarrow> 0 \<le> i \<and> nat i < length xs \<and> xs ! nat i = x | _ \<Rightarrow> False)"

lemma native_found:
  assumes "x \<in> set xs" "x \<noteq> NaN"
  shows "found key xs x (native key xs (Search x))"
proof (cases key)
  case Includes
  then show ?thesis using assms by simp
next
  case IndexOf
  then show ?thesis using first_index_found [OF assms] by auto
next
  case LastIndexOf
  then show ?thesis using last_index_found [OF assms] by auto
qed

lemma native_cases:
  "failed (native key xs (Search v)) \<or> found key xs v (native key xs (Search v))"
proof (cases key)
  case Includes
  then show ?thesis by (simp add: failed_def)
next
  case IndexOf
  then show ?thesis using first_index_cases [of xs v 0] by (auto simp: failed_def)
next
  case LastIndexOf
  then show ?thesis using last_index_cases [of xs v] by (auto simp: failed_def)
qed

lemma search_stored:
  assumes "reactive_array ps a t xs" "isObject v" "toRaw ps v \<in> set xs"
  shows "\<exists>res es'. array_search key a (Search v) ps es = Some (res, es') \<and>
           (found key xs v res \<or> found key xs (toRaw ps v) res)"
proof -
  have n: "toRaw ps v \<noteq> NaN" using assms(2) by (cases v) (simp_all add: isObject_def toRaw_def)
  show ?thesis
    using native_cases [of key xs v] native_found [OF assms(3) n, of key]
    by (auto simp: array_search_eq [OF assms(1)])
qed

subsection \<open>The indices are tracked\<close>

lemma search_tracked:
  assumes "effect_ready s e" "i < l"
  shows "subscribed (run s e (search_reads t l)) e t (KStr (string_of_nat i))"
    and "subscribed (run s e (search_reads t l)) e t (KStr ''length'')"
proof -
  note p = run_precise [OF assms(1), of "search_reads t l"]
  then have m: "map_ok (run s e (search_reads t l))" by (simp add: effect_ready_def)
  have "(t, KStr (string_of_nat i)) \<in> set (search_reads t l)"
    using assms(2) by (simp add: search_reads_def)
  then show "subscribed (run s e (search_reads t l)) e t (KStr (string_of_nat i))"
    using tracked_exactly_subscribed [OF _ m] p by blast
  have "(t, KStr ''length'') \<in> set (search_reads t l)" by (simp add: search_reads_def)
  then show "subscribed (run s e (search_reads t l)) e t (KStr ''length'')"
    using tracked_exactly_subscribed [OF _ m] p by blast
qed


text \<open>
  C8. Called on a reactive proxy \<open>a\<close> of the raw array \<open>t\<close> with the elements \<open>xs\<close>, each of
  the three methods searches \<open>xs\<close> for the arguments as given and, if the result is
  \<open>false\<close> or \<open>-1\<close>, returns the result of the search for the arguments under \<open>toRaw\<close>;
  it reads the length and tracks every index of \<open>t\<close>. So the search for an object \<open>v\<close>
  with \<open>toRaw v\<close> stored in the array finds \<open>v\<close> or \<open>toRaw v\<close>; and an effect that makes
  the search is subscribed to every index of \<open>t\<close> after its run.
\<close>

theorem array_search_fallback:
  assumes "reactive_array ps a t xs"
  shows "array_search key a args ps es =
       Some (if failed (native key xs args) then native key xs (raw_args ps args)
             else native key xs args,
             run_fn es (search_reads t (length xs))) \<and>
     (isObject v \<and> toRaw ps v \<in> set xs \<longrightarrow>
        (\<exists>res es'. array_search key a (Search v) ps es = Some (res, es') \<and>
           (found key xs v res \<or> found key xs (toRaw ps v) res))) \<and>
     (effect_ready s e \<longrightarrow>
        (\<forall>i < length xs.
           subscribed (run s e (search_reads t (length xs))) e t (KStr (string_of_nat i))))"
  using array_search_eq [OF assms] search_stored [OF assms] search_tracked(1) by blast

definition array_of_object :: pstate where
  "array_of_object =
     \<lparr>heap = [RawObject plain_object,
              RawObject (plain_object\<lparr>rtype := TArray, elems := [Obj 0]\<rparr>),
              Proxy 1 mutableHandlers, Proxy 0 mutableHandlers],
      reactiveMap = [1 \<mapsto> 2, 0 \<mapsto> 3],
      shallowReactiveMap = Map.empty, readonlyMap = Map.empty, shallowReadonlyMap = Map.empty\<rparr>"

lemma reactive_array_example: "reactive_array array_of_object 2 1 [Obj 0]"
  by (simp add: reactive_array_def array_of_object_def plain_object_def)

lemma toRaw_example: "toRaw array_of_object (Obj 3) = Obj 0"
proof -
  have "raw_flag array_of_object 3 = Some 0"
    by (simp add: raw_flag_def array_of_object_def mutableHandlers_def map_of_flags_def)
  moreover have "raw_flag array_of_object 0 = None"
    by (simp add: raw_flag_def array_of_object_def)
  ultimately show ?thesis
    by (simp add: toRaw_def) (subst toRaw_addr.simps, simp, subst toRaw_addr.simps, simp)
qed

theorem array_search_fallback_witness:
  "reactive_array array_of_object 2 1 [Obj 0] \<and>
   native Includes [Obj 0] (Search (Obj 3)) = Bool False \<and>
   map_option fst (array_search Includes 2 (Search (Obj 3)) array_of_object init_estate)
     = Some (Bool True) \<and>
   map_option fst (array_search IndexOf 2 (Search (Obj 3)) array_of_object init_estate)
     = Some (Num 0) \<and>
   map_option fst (array_search LastIndexOf 2 (SearchFrom (Obj 3) (- 1)) array_of_object init_estate)
     = Some (Num 0) \<and>
   effect_ready init_estate 0 \<and>
   subscribed (run init_estate 0 (search_reads 1 1)) 0 1 (KStr ''0'')"
proof -
  note r = reactive_array_example
  have s: "string_of_nat 0 = ''0''"
    by code_simp
  have a: "map_option fst (array_search Includes 2 (Search (Obj 3)) array_of_object init_estate)
     = Some (Bool True)"
    using array_search_fallback [OF r, of Includes "Search (Obj 3)" init_estate]
    by (simp add: failed_def toRaw_example)
  have b: "map_option fst (array_search IndexOf 2 (Search (Obj 3)) array_of_object init_estate)
     = Some (Num 0)"
    using array_search_fallback [OF r, of IndexOf "Search (Obj 3)" init_estate]
    by (simp add: failed_def toRaw_example first_index_def strict_eq_def)
  have c: "map_option fst (array_search LastIndexOf 2 (SearchFrom (Obj 3) (- 1)) array_of_object init_estate)
     = Some (Num 0)"
    using array_search_fallback [OF r, of LastIndexOf "SearchFrom (Obj 3) (- 1)" init_estate]
    by (simp add: failed_def toRaw_example last_index_def strict_eq_def)
  have d: "subscribed (run init_estate 0 (search_reads 1 1)) 0 1 (KStr ''0'')"
    using array_search_fallback [OF r, of Includes "Search (Obj 3)" init_estate _ init_estate 0]
      effect_ready_init s by simp
  show ?thesis using r a b c d effect_ready_init by simp
qed


section \<open>Keyed children (runtime/renderer.js, getSequence and patchKeyedChildren)\<close>

subsection \<open>getSequence\<close>

text \<open>
  The argument is \<open>newIndexToOldIndexMap\<close>, an array of natural numbers. Reading an
  array beyond its end gives \<open>undefined\<close>, here \<open>None\<close>, and a comparison with \<open>undefined\<close>
  is false. \<open>result\<close> is read at positions that the loops bound by its length, which is
  never zero.
\<close>

definition nth_opt :: "nat list \<Rightarrow> nat \<Rightarrow> nat option" where
  "nth_opt xs i = (if i < length xs then Some (xs ! i) else None)"

definition js_less :: "nat option \<Rightarrow> nat option \<Rightarrow> bool" where
  "js_less a b = (case (a, b) of (Some x, Some y) \<Rightarrow> x < y | _ \<Rightarrow> False)"

text \<open>The binary search; \<open>(u + v) >> 1\<close> is the half of the sum, for arrays below \<open>2^30\<close> elements.\<close>

function bsearch :: "nat list \<Rightarrow> nat list \<Rightarrow> nat \<Rightarrow> nat \<Rightarrow> nat \<Rightarrow> nat" where
  "bsearch arr result arrI u v =
     (if u < v then
        (let c = (u + v) div 2 in
         if js_less (nth_opt arr (result ! c)) (Some arrI)
         then bsearch arr result arrI (c + 1) v
         else bsearch arr result arrI u c)
      else u)"
  by pat_completeness auto
termination
  by (relation "measure (\<lambda>(arr, result, arrI, u, v). v - u)") auto

declare bsearch.simps [simp del]

text \<open>One pass of the loop over the indices; the state is \<open>p\<close> and \<open>result\<close>.\<close>

definition seq_step :: "nat list \<Rightarrow> nat list \<times> nat list \<Rightarrow> nat \<Rightarrow> nat list \<times> nat list" where
  "seq_step arr st i =
     (case st of (p, result) \<Rightarrow>
        (let arrI = arr ! i in
         if arrI \<noteq> 0 then
           (let j = last result in
            if js_less (nth_opt arr j) (Some arrI) then (p[i := j], result @ [i])
            else
              (let u = bsearch arr result arrI 0 (length result - 1) in
               if js_less (Some arrI) (nth_opt arr (result ! u))
               then ((if 0 < u then p[i := result ! (u - 1)] else p), result[u := i])
               else (p, result)))
         else (p, result)))"

text \<open>
  The last loop, which walks back along \<open>p\<close>. \<open>v\<close> is \<open>undefined\<close> when \<open>p\<close> was read
  beyond its end.
\<close>

fun backtrack :: "nat list \<Rightarrow> nat option list \<Rightarrow> nat \<Rightarrow> nat option \<Rightarrow> nat option list" where
  "backtrack p result 0 v = result"
| "backtrack p result (Suc u) v =
     backtrack p (result[u := v]) u (case v of None \<Rightarrow> None | Some w \<Rightarrow> nth_opt p w)"

definition getSequence :: "nat list \<Rightarrow> nat option list" where
  "getSequence arr =
     (case foldl (seq_step arr) (arr, [0]) [0..<length arr] of
        (p, result) \<Rightarrow> backtrack p (map Some result) (length result) (Some (last result)))"


subsection \<open>patchKeyedChildren\<close>

text \<open>
  A virtual node, as far as \<open>isSameVNodeType\<close> and \<open>patchKeyedChildren\<close> read it. The
  calls that \<open>patchKeyedChildren\<close> makes are collected in a list: \<open>patch\<close> of an old and
  a new child, \<open>patch\<close> of \<open>null\<close> and a new child, which mounts it, \<open>unmount\<close>, and \<open>move\<close>.
  Children are named by their index; the anchor of a mount or a move is the element of
  a new child, or \<open>parentAnchor\<close>, here \<open>None\<close>.
\<close>

datatype vnode_type = TEXT | COMMENT | FRAGMENT | ELEMENT | COMPONENT

datatype vkey = SKey string | NKey int

record vnode =
  vn_tag :: string
  vn_key :: "vkey option"
  vn_type :: vnode_type

definition isSameVNodeType :: "vnode \<Rightarrow> vnode \<Rightarrow> bool" where
  "isSameVNodeType oldNode newNode \<longleftrightarrow>
     vn_type oldNode = vn_type newNode \<and> vn_tag oldNode = vn_tag newNode \<and>
     vn_key oldNode = vn_key newNode"

datatype dom_op = Patch nat nat | Mount nat "nat option" | Unmount nat | Move nat "nat option"

text \<open>The two loops over the common start and the common end of the lists.\<close>

function sync_start ::
  "vnode list \<Rightarrow> vnode list \<Rightarrow> int \<Rightarrow> int \<Rightarrow> nat \<Rightarrow> dom_op list \<Rightarrow> nat \<times> dom_op list" where
  "sync_start oldChildren newChildren e1 e2 i ops =
     (if int i \<le> e1 \<and> int i \<le> e2 then
        (if isSameVNodeType (oldChildren ! i) (newChildren ! i)
         then sync_start oldChildren newChildren e1 e2 (i + 1) (ops @ [Patch i i])
         else (i, ops))
      else (i, ops))"
  by pat_completeness auto
termination
  by (relation "measure (\<lambda>(oldChildren, newChildren, e1, e2, i, ops). nat (e1 + 1 - int i))") auto

function sync_end ::
  "vnode list \<Rightarrow> vnode list \<Rightarrow> nat \<Rightarrow> int \<Rightarrow> int \<Rightarrow> dom_op list \<Rightarrow> (int \<times> int) \<times> dom_op list" where
  "sync_end oldChildren newChildren i e1 e2 ops =
     (if int i \<le> e1 \<and> int i \<le> e2 then
        (if isSameVNodeType (oldChildren ! nat e1) (newChildren ! nat e2)
         then sync_end oldChildren newChildren i (e1 - 1) (e2 - 1) (ops @ [Patch (nat e1) (nat e2)])
         else ((e1, e2), ops))
      else ((e1, e2), ops))"
  by pat_completeness auto
termination
  by (relation "measure (\<lambda>(oldChildren, newChildren, i, e1, e2, ops). nat (e1 + 1))") auto

declare sync_start.simps [simp del] sync_end.simps [simp del]

text \<open>The part between: the new children from \<open>s2\<close> to \<open>e2\<close>, the old ones from \<open>s1\<close> to \<open>e1\<close>.\<close>

definition keyToNewIndexMap :: "vnode list \<Rightarrow> nat \<Rightarrow> nat \<Rightarrow> vkey \<Rightarrow> nat option" where
  "keyToNewIndexMap newChildren s2 e2 =
     foldl (\<lambda>m i. case vn_key (newChildren ! i) of None \<Rightarrow> m | Some k \<Rightarrow> m(k \<mapsto> i))
       Map.empty [s2..<e2 + 1]"

record matching =
  patched :: nat
  moved :: bool
  maxNewIndexSoFar :: nat
  newIndexToOldIndexMap :: "nat list"
  ops :: "dom_op list"

definition match_old ::
  "vnode list \<Rightarrow> vnode list \<Rightarrow> nat \<Rightarrow> nat \<Rightarrow> (vkey \<Rightarrow> nat option) \<Rightarrow> matching \<Rightarrow> nat \<Rightarrow> matching" where
  "match_old oldChildren newChildren s2 e2 km st i =
     (let oldChild = oldChildren ! i;
          toBePatched = e2 - s2 + 1
      in if toBePatched \<le> patched st then st\<lparr>ops := ops st @ [Unmount i]\<rparr>
         else
           (let newIndex =
                  (case vn_key oldChild of
                     Some k \<Rightarrow> km k
                   | None \<Rightarrow>
                       find (\<lambda>j. newIndexToOldIndexMap st ! (j - s2) = 0 \<and>
                                  isSameVNodeType oldChild (newChildren ! j)) [s2..<e2 + 1])
            in case newIndex of
                 None \<Rightarrow> st\<lparr>ops := ops st @ [Unmount i]\<rparr>
               | Some n \<Rightarrow>
                   st\<lparr>newIndexToOldIndexMap := (newIndexToOldIndexMap st)[n - s2 := i + 1],
                      maxNewIndexSoFar := (if maxNewIndexSoFar st \<le> n then n else maxNewIndexSoFar st),
                      moved := (if maxNewIndexSoFar st \<le> n then moved st else True),
                      ops := ops st @ [Patch i n],
                      patched := patched st + 1\<rparr>))"

definition match_phase :: "vnode list \<Rightarrow> vnode list \<Rightarrow> nat \<Rightarrow> nat \<Rightarrow> nat \<Rightarrow> matching" where
  "match_phase oldChildren newChildren s e1 e2 =
     foldl (match_old oldChildren newChildren s e2 (keyToNewIndexMap newChildren s e2))
       \<lparr>patched = 0, moved = False, maxNewIndexSoFar = 0,
        newIndexToOldIndexMap = replicate (e2 - s + 1) 0, ops = []\<rparr>
       [s..<e1 + 1]"

text \<open>
  The last loop, from the last of the new children between to the first: \<open>i + 1\<close> is
  counted down.
\<close>

fun place :: "nat list \<Rightarrow> bool \<Rightarrow> nat option list \<Rightarrow> nat \<Rightarrow> nat \<Rightarrow> nat \<Rightarrow> int \<Rightarrow> dom_op list" where
  "place m mv increasingNewIndexSequence l2 s2 0 sequenceLastIndex = []"
| "place m mv increasingNewIndexSequence l2 s2 (Suc i) sequenceLastIndex =
     (let newIndex = s2 + i;
          anchor = (if newIndex + 1 < l2 then Some (newIndex + 1) else None)
      in if m ! i = 0 then
           Mount newIndex anchor # place m mv increasingNewIndexSequence l2 s2 i sequenceLastIndex
         else if mv then
           (if sequenceLastIndex < 0 \<or> Some i \<noteq> increasingNewIndexSequence ! nat sequenceLastIndex
            then Move newIndex anchor # place m mv increasingNewIndexSequence l2 s2 i sequenceLastIndex
            else place m mv increasingNewIndexSequence l2 s2 i (sequenceLastIndex - 1))
         else place m mv increasingNewIndexSequence l2 s2 i sequenceLastIndex)"

definition patch_between :: "vnode list \<Rightarrow> vnode list \<Rightarrow> nat \<Rightarrow> nat \<Rightarrow> nat \<Rightarrow> dom_op list" where
  "patch_between oldChildren newChildren s e1 e2 =
     (let st = match_phase oldChildren newChildren s e1 e2;
          increasingNewIndexSequence =
            (if moved st then getSequence (newIndexToOldIndexMap st) else [])
      in ops st @
         place (newIndexToOldIndexMap st) (moved st) increasingNewIndexSequence
           (length newChildren) s (e2 - s + 1) (int (length increasingNewIndexSequence) - 1))"

definition patchKeyedChildren :: "vnode list \<Rightarrow> vnode list \<Rightarrow> dom_op list" where
  "patchKeyedChildren oldChildren newChildren =
     (let l2 = length newChildren;
          (i, ops1) = sync_start oldChildren newChildren
                        (int (length oldChildren) - 1) (int l2 - 1) 0 [];
          ((e1, e2), ops2) = sync_end oldChildren newChildren i
                        (int (length oldChildren) - 1) (int l2 - 1) ops1
      in if e1 < int i then
           (if int i \<le> e2 then
              ops2 @ map (\<lambda>k. Mount k (if nat (e2 + 1) < l2 then Some (nat (e2 + 1)) else None))
                       [i..<nat (e2 + 1)]
            else ops2)
         else if e2 < int i then ops2 @ map Unmount [i..<nat (e1 + 1)]
         else ops2 @ patch_between oldChildren newChildren i (nat e1) (nat e2))"

fun is_move :: "dom_op \<Rightarrow> bool" where
  "is_move (Move _ _) = True"
| "is_move _ = False"

definition move_of :: "nat \<Rightarrow> nat \<Rightarrow> nat \<Rightarrow> dom_op" where
  "move_of l2 s2 i = Move (s2 + i) (if s2 + i + 1 < l2 then Some (s2 + i + 1) else None)"


subsection \<open>Increasing subsequences\<close>

text \<open>
  \<open>increasing arr is\<close>: \<open>is\<close> is a list of indices of \<open>arr\<close>, ascending, with strictly
  ascending entries. The indices that \<open>getSequence\<close> takes into account are those
  of the entries that are not zero, and the index \<open>0\<close>, with which \<open>result\<close> starts.
\<close>

definition increasing :: "nat list \<Rightarrow> nat list \<Rightarrow> bool" where
  "increasing arr is \<longleftrightarrow>
     sorted_wrt (<) is \<and> (\<forall>x \<in> set is. x < length arr) \<and> sorted_wrt (<) (map ((!) arr) is)"

definition cand :: "nat list \<Rightarrow> nat \<Rightarrow> bool" where
  "cand arr x \<longleftrightarrow> x = 0 \<or> arr ! x \<noteq> 0"

definition tails_ok :: "nat list \<Rightarrow> nat \<Rightarrow> nat list \<Rightarrow> bool" where
  "tails_ok arr i vals \<longleftrightarrow>
     (\<forall>is. is \<noteq> [] \<and> increasing arr is \<and> (\<forall>x \<in> set is. x < i \<and> cand arr x) \<longrightarrow>
        length is \<le> length vals \<and> vals ! (length is - 1) \<le> arr ! (last is))"

definition nonzero_lis :: "nat list \<Rightarrow> nat list \<Rightarrow> bool" where
  "nonzero_lis arr r \<longleftrightarrow>
     increasing arr r \<and> (\<forall>x \<in> set r. arr ! x \<noteq> 0) \<and>
     (\<forall>is. increasing arr is \<and> (\<forall>x \<in> set is. arr ! x \<noteq> 0) \<longrightarrow> length is \<le> length r)"


subsection \<open>The invariant of the loop of \<open>getSequence\<close>\<close>

text \<open>\<open>p_chain arr p x k\<close>: \<open>k\<close> steps along \<open>p\<close> from \<open>x\<close> go down in index and entry.\<close>

fun p_chain :: "nat list \<Rightarrow> nat list \<Rightarrow> nat \<Rightarrow> nat \<Rightarrow> bool" where
  "p_chain arr p x 0 = True"
| "p_chain arr p x (Suc k) =
     (p ! x < x \<and> arr ! (p ! x) < arr ! x \<and> cand arr (p ! x) \<and> p_chain arr p (p ! x) k)"

definition seq_inv :: "nat list \<Rightarrow> nat \<Rightarrow> nat list \<times> nat list \<Rightarrow> bool" where
  "seq_inv arr i st \<longleftrightarrow>
     (case st of (p, result) \<Rightarrow>
        length p = length arr \<and> result \<noteq> [] \<and>
        (\<forall>x \<in> set result. x < i \<and> cand arr x) \<and>
        sorted_wrt (<) (map ((!) arr) result) \<and>
        (\<forall>k < length result. p_chain arr p (result ! k) k) \<and>
        tails_ok arr i (map ((!) arr) result))"

fun chain_list :: "nat list \<Rightarrow> nat \<Rightarrow> nat \<Rightarrow> nat list" where
  "chain_list p x 0 = [x]"
| "chain_list p x (Suc k) = chain_list p (p ! x) k @ [x]"



text \<open>Children with the keys given, of one type and tag.\<close>

definition keyed :: "string \<Rightarrow> vnode list" where
  "keyed s = map (\<lambda>c. \<lparr>vn_tag = ''li'', vn_key = Some (SKey [c]), vn_type = ELEMENT\<rparr>) s"


lemma sorted_wrt_less_nth:
  fixes vals :: "nat list"
  assumes "sorted_wrt (<) vals" "j \<le> k" "k < length vals"
  shows "vals ! j \<le> vals ! k"
proof (cases "j = k")
  case True
  then show ?thesis by simp
next
  case False
  then have "vals ! j < vals ! k"
    using assms by (simp add: sorted_wrt_nth_less)
  then show ?thesis by simp
qed

lemma increasing_last_max:
  assumes "sorted_wrt (<) (is :: nat list)" "x \<in> set is"
  shows "x \<le> last is"
proof -
  have "is \<noteq> []" using assms(2) by auto
  obtain k where k: "k < length is" "is ! k = x" using assms(2) by (auto simp: in_set_conv_nth)
  have "is ! k \<le> is ! (length is - 1)"
    using assms(1) k(1) by (intro sorted_wrt_less_nth) auto
  then show ?thesis using k(2) \<open>is \<noteq> []\<close> by (simp add: last_conv_nth)
qed

lemma increasing_butlast:
  assumes "increasing arr is"
  shows "increasing arr (butlast is)"
proof -
  have "butlast is = take (length is - 1) is" by (simp add: butlast_conv_take)
  then show ?thesis
    using assms unfolding increasing_def
    by (auto simp: sorted_wrt_take take_map [symmetric] dest: in_set_takeD)
qed

lemma increasing_split:
  assumes "increasing arr is" "butlast is \<noteq> []"
  shows "last (butlast is) < last is" "arr ! last (butlast is) < arr ! last is"
proof -
  from assms(2) obtain ys y where ys: "is = ys @ [y]" "ys \<noteq> []"
    by (cases "is" rule: rev_cases) auto
  then obtain zs z where zs: "ys = zs @ [z]" by (cases ys rule: rev_cases) auto
  have s: "sorted_wrt (<) (zs @ [z, y])" "sorted_wrt (<) (map ((!) arr) (zs @ [z, y]))"
    using assms(1) ys zs by (simp_all add: increasing_def)
  have l: "last is = y" "last (butlast is) = z" by (simp_all add: ys zs butlast_append)
  show "last (butlast is) < last is"
    using s(1) by (simp add: l sorted_wrt_append)
  show "arr ! last (butlast is) < arr ! last is"
    using s(2) by (simp add: l sorted_wrt_append)
qed

lemma old_or_new:
  assumes "increasing arr is" "\<forall>x \<in> set is. x < Suc i" "is \<noteq> []"
  shows "(\<forall>x \<in> set is. x < i) \<or> (last is = i \<and> (\<forall>x \<in> set (butlast is). x < i))"
proof (cases "last is < i")
  case True
  then show ?thesis
    using increasing_last_max [of "is"] assms(1) unfolding increasing_def by fastforce
next
  case False
  then have l: "last is = i" using assms(2,3) by (metis last_in_set less_SucE)
  have "x < i" if "x \<in> set (butlast is)" for x
  proof -
    have b: "butlast is \<noteq> []" using that by auto
    have "x \<le> last (butlast is)"
      using increasing_butlast [OF assms(1)] that increasing_last_max unfolding increasing_def
      by blast
    then show ?thesis using increasing_split(1) [OF assms(1) b] l by simp
  qed
  then show ?thesis using l by simp
qed


lemma tails_skip:
  assumes "tails_ok arr i vals" "\<not> cand arr i"
  shows "tails_ok arr (Suc i) vals"
  unfolding tails_ok_def
proof (intro allI impI)
  fix "is"
  assume a: "is \<noteq> [] \<and> increasing arr is \<and> (\<forall>x \<in> set is. x < Suc i \<and> cand arr x)"
  then have "\<forall>x \<in> set is. x < i \<and> cand arr x"
    using assms(2) by (metis less_SucE)
  then show "length is \<le> length vals \<and> vals ! (length is - 1) \<le> arr ! last is"
    using a assms(1) unfolding tails_ok_def by blast
qed

lemma tails_new:
  assumes "tails_ok arr i vals" "increasing arr is" "is \<noteq> []" "last is = i"
    and "\<forall>x \<in> set (butlast is). x < i" "\<forall>x \<in> set is. cand arr x"
  shows "length is = 1 \<or> (2 \<le> length is \<and> length is - 1 \<le> length vals \<and>
           vals ! (length is - 2) < arr ! i)"
proof (cases "butlast is = []")
  case True
  then have "length (butlast is) = 0" by simp
  then show ?thesis using assms(3) by (cases "is") auto
next
  case False
  have c: "\<forall>x \<in> set (butlast is). x < i \<and> cand arr x"
    using assms(5,6) by (auto dest: in_set_butlastD)
  have "length (butlast is) \<le> length vals \<and>
      vals ! (length (butlast is) - 1) \<le> arr ! last (butlast is)"
    using assms(1) False increasing_butlast [OF assms(2)] c unfolding tails_ok_def by blast
  moreover have "arr ! last (butlast is) < arr ! i"
    using increasing_split(2) [OF assms(2) False] assms(4) by simp
  moreover have "length (butlast is) \<noteq> 0" using False by (simp only: length_0_conv not_False_eq_True)
  ultimately show ?thesis by (simp add: numeral_2_eq_2)
qed


lemma tails_append:
  assumes "tails_ok arr i vals" "sorted_wrt (<) vals" "vals \<noteq> []" "last vals < arr ! i"
  shows "tails_ok arr (Suc i) (vals @ [arr ! i])"
  unfolding tails_ok_def
proof (intro allI impI)
  fix "is"
  assume a: "is \<noteq> [] \<and> increasing arr is \<and> (\<forall>x \<in> set is. x < Suc i \<and> cand arr x)"
  then have l: "0 < length is" by simp
  from a old_or_new [of arr "is" i]
  consider (old) "\<forall>x \<in> set is. x < i" | (new) "last is = i" "\<forall>x \<in> set (butlast is). x < i"
    by blast
  then show "length is \<le> length (vals @ [arr ! i]) \<and>
       (vals @ [arr ! i]) ! (length is - 1) \<le> arr ! last is"
  proof cases
    case old
    then have o: "length is \<le> length vals" "vals ! (length is - 1) \<le> arr ! last is"
      using a assms(1) unfolding tails_ok_def by blast+
    have "length is - 1 < length vals" using o(1) l by linarith
    then show ?thesis using o by (simp add: nth_append)
  next
    case new
    from tails_new [OF assms(1) _ _ new] a
    consider "length is = 1"
      | "2 \<le> length is" "length is - 1 \<le> length vals" "vals ! (length is - 2) < arr ! i"
      by blast
    then show ?thesis
    proof cases
      case 1
      have "vals ! 0 \<le> last vals"
        using sorted_wrt_less_nth [OF assms(2), of 0 "length vals - 1"] assms(3)
        by (simp add: last_conv_nth)
      then show ?thesis using 1 assms(3,4) new(1) by (simp add: nth_append)
    next
      case 2
      show ?thesis
      proof (cases "length is - 1 = length vals")
        case True
        then show ?thesis using new(1) by simp
      next
        case False
        then have k: "length is - 1 < length vals" using 2(2) by simp
        have "vals ! (length is - 1) \<le> last vals"
          using sorted_wrt_less_nth [OF assms(2), of "length is - 1" "length vals - 1"] k assms(3)
          by (simp add: last_conv_nth)
        then show ?thesis using k assms(4) new(1) by (simp add: nth_append)
      qed
    qed
  qed
qed

lemma tails_replace:
  assumes "tails_ok arr i vals" "sorted_wrt (<) vals" "u < length vals"
    and "\<forall>k<u. vals ! k < arr ! i" "arr ! i \<le> vals ! u"
  shows "tails_ok arr (Suc i) (vals[u := arr ! i])"
  unfolding tails_ok_def
proof (intro allI impI)
  fix "is"
  assume a: "is \<noteq> [] \<and> increasing arr is \<and> (\<forall>x \<in> set is. x < Suc i \<and> cand arr x)"
  then have l: "0 < length is" by simp
  from a old_or_new [of arr "is" i]
  consider (old) "\<forall>x \<in> set is. x < i" | (new) "last is = i" "\<forall>x \<in> set (butlast is). x < i"
    by blast
  then show "length is \<le> length (vals[u := arr ! i]) \<and>
       (vals[u := arr ! i]) ! (length is - 1) \<le> arr ! last is"
  proof cases
    case old
    then have o: "length is \<le> length vals" "vals ! (length is - 1) \<le> arr ! last is"
      using a assms(1) unfolding tails_ok_def by blast+
    show ?thesis
    proof (cases "length is - 1 = u")
      case True
      then show ?thesis using o assms(3,5) by simp
    next
      case False
      then show ?thesis using o by simp
    qed
  next
    case new
    have ge: "arr ! i \<le> vals ! k" if "u \<le> k" "k < length vals" for k
      using sorted_wrt_less_nth [OF assms(2) that] assms(5) by simp
    from tails_new [OF assms(1) _ _ new] a
    consider "length is = 1"
      | "2 \<le> length is" "length is - 1 \<le> length vals" "vals ! (length is - 2) < arr ! i"
      by blast
    then show ?thesis
    proof cases
      case 1
      show ?thesis
      proof (cases "u = 0")
        case True
        have "1 \<le> length vals" using assms(3) by linarith
        then show ?thesis using True 1 assms(3) new(1) by (simp add: Suc_le_eq)
      next
        case False
        have "1 \<le> length vals" using assms(3) by linarith
        moreover have "vals ! 0 < arr ! i" using False assms(4) by simp
        ultimately show ?thesis using False 1 assms(3) new(1) by (simp add: Suc_le_eq)
      qed
    next
      case 2
      have "length is - 2 < u"
      proof (rule ccontr)
        assume "\<not> length is - 2 < u"
        then have "arr ! i \<le> vals ! (length is - 2)"
          using ge [of "length is - 2"] 2(1,2) by simp
        then show False using 2(3) by simp
      qed
      then have k: "length is - 1 \<le> u" using 2(1) by simp
      show ?thesis
      proof (cases "length is - 1 = u")
        case True
        then show ?thesis using assms(3) new(1) by simp
      next
        case False
        then have lt: "length is - 1 < u" using k by simp
        then have "vals ! (length is - 1) < arr ! i" using assms(4) by simp
        moreover have "length is \<le> length vals" using lt assms(3) by linarith
        ultimately show ?thesis using lt new(1) by simp
      qed
    qed
  qed
qed


lemma chain_update:
  assumes "x < i"
  shows "p_chain arr (p[i := y]) x k = p_chain arr p x k"
  using assms
proof (induction k arbitrary: x)
  case 0
  then show ?case by simp
next
  case (Suc k)
  have e: "p[i := y] ! x = p ! x" using Suc.prems by simp
  show ?case
  proof (cases "p ! x < x")
    case True
    then have "p ! x < i" using Suc.prems by simp
    then show ?thesis using Suc.IH [of "p ! x"] by (simp add: e)
  next
    case False
    then show ?thesis by (simp add: e)
  qed
qed

lemma bsearch_spec:
  assumes "sorted_wrt (<) (map ((!) arr) result)" "\<forall>x \<in> set result. x < length arr"
    and "u \<le> v" "v < length result"
    and "\<forall>k<u. arr ! (result ! k) < a" "a \<le> arr ! (result ! v)"
  shows "bsearch arr result a u v \<le> v \<and>
         (\<forall>k < bsearch arr result a u v. arr ! (result ! k) < a) \<and>
         a \<le> arr ! (result ! bsearch arr result a u v)"
  using assms(3-6)
proof (induction "v - u" arbitrary: u v rule: less_induct)
  case less
  show ?case
  proof (cases "u < v")
    case False
    then have "bsearch arr result a u v = u" by (subst bsearch.simps) simp
    then show ?thesis using less.prems False by simp
  next
    case True
    define c where "c = (u + v) div 2"
    have c: "u \<le> c" "c < v" using True by (simp_all add: c_def)
    have cl: "c < length result" using c less.prems(2) by simp
    then have "result ! c < length arr" using assms(2) by simp
    then have r: "js_less (nth_opt arr (result ! c)) (Some a) = (arr ! (result ! c) < a)"
      by (simp add: nth_opt_def js_less_def)
    show ?thesis
    proof (cases "arr ! (result ! c) < a")
      case lt: True
      have b: "bsearch arr result a u v = bsearch arr result a (c + 1) v"
        using True lt r by (subst bsearch.simps) (simp add: c_def [symmetric])
      have "\<forall>k < c + 1. arr ! (result ! k) < a"
      proof (intro allI impI)
        fix k assume "k < c + 1"
        then have "map ((!) arr) result ! k \<le> map ((!) arr) result ! c"
          using cl by (intro sorted_wrt_less_nth [OF assms(1)]) simp_all
        then show "arr ! (result ! k) < a" using lt cl \<open>k < c + 1\<close> by simp
      qed
      then show ?thesis
        using less.hyps [of v "c + 1"] c less.prems b by simp
    next
      case ge: False
      have b: "bsearch arr result a u v = bsearch arr result a u c"
        using True ge r by (subst bsearch.simps) (simp add: c_def [symmetric])
      have "bsearch arr result a u c \<le> c \<and>
         (\<forall>k < bsearch arr result a u c. arr ! (result ! k) < a) \<and>
         a \<le> arr ! (result ! bsearch arr result a u c)"
        using less.hyps [of c u] c cl less.prems ge by simp
      then show ?thesis using b c by simp
    qed
  qed
qed


lemma sorted_update:
  fixes vals :: "nat list"
  assumes "sorted_wrt (<) vals" "u < length vals" "\<forall>k<u. vals ! k < a" "a \<le> vals ! u"
  shows "sorted_wrt (<) (vals[u := a])"
  unfolding sorted_wrt_iff_nth_less
proof (intro allI impI)
  fix j k
  assume jk: "j < k" "k < length (vals[u := a])"
  then have o: "vals ! j < vals ! k" using assms(1) by (simp add: sorted_wrt_nth_less)
  show "vals[u := a] ! j < vals[u := a] ! k"
  proof (cases "k = u")
    case True
    then show ?thesis using jk assms(2,3) by simp
  next
    case False
    show ?thesis
    proof (cases "j = u")
      case True
      have "vals ! u < vals ! k" using o True by simp
      then show ?thesis using True False jk assms(2,4) by simp
    next
      case False
      then show ?thesis using \<open>k \<noteq> u\<close> o by simp
    qed
  qed
qed

lemma sorted_le_last:
  fixes vals :: "nat list"
  assumes "sorted_wrt (<) vals" "x \<in> set vals"
  shows "x \<le> last vals"
  using assms increasing_last_max by blast

lemma seq_step_eq:
  "seq_step arr (p, result) i =
     (if arr ! i = 0 then (p, result)
      else if js_less (nth_opt arr (last result)) (Some (arr ! i))
        then (p[i := last result], result @ [i])
      else if js_less (Some (arr ! i))
                (nth_opt arr (result ! bsearch arr result (arr ! i) 0 (length result - 1)))
        then ((if 0 < bsearch arr result (arr ! i) 0 (length result - 1)
               then p[i := result ! (bsearch arr result (arr ! i) 0 (length result - 1) - 1)]
               else p),
              result[bsearch arr result (arr ! i) 0 (length result - 1) := i])
      else (p, result))"
  by (simp add: seq_step_def Let_def)

lemma seq_step_inv:
  assumes "seq_inv arr i st" "0 < i" "i < length arr"
  shows "seq_inv arr (Suc i) (seq_step arr st i)"
proof -
  obtain p result where st: "st = (p, result)" by (cases st)
  define vals where "vals = map ((!) arr) result"
  define a where "a = arr ! i"
  from assms(1) have inv: "length p = length arr" "result \<noteq> []"
    "\<forall>x \<in> set result. x < i \<and> cand arr x" "sorted_wrt (<) vals"
    "\<forall>k < length result. p_chain arr p (result ! k) k" "tails_ok arr i vals"
    by (simp_all add: seq_inv_def st vals_def)
  have range: "\<forall>x \<in> set result. x < length arr" using inv(3) assms(3) by auto
  have keep: "\<forall>x \<in> set result. x < Suc i \<and> cand arr x" using inv(3) by auto
  define j where "j = last result"
  have j: "j \<in> set result" "j < i" "cand arr j" "j = result ! (length result - 1)"
    using inv(2,3) by (simp_all add: j_def last_conv_nth)
  have jr: "js_less (nth_opt arr j) (Some a) = (arr ! j < a)"
    using j(2) assms(3) by (simp add: nth_opt_def js_less_def)
  show ?thesis
  proof (cases "a = 0")
    case True
    then have s: "seq_step arr st i = (p, result)" by (simp add: seq_step_eq st a_def)
    have "\<not> cand arr i" using True assms(2) by (simp add: cand_def a_def)
    then have "tails_ok arr (Suc i) vals" using inv(6) by (intro tails_skip)
    then show ?thesis using inv keep by (simp add: s seq_inv_def vals_def)
  next
    case nz: False
    then have ci: "cand arr i" by (simp add: cand_def a_def)
    show ?thesis
    proof (cases "arr ! j < a")
      case True
      have s: "seq_step arr st i = (p[i := j], result @ [i])"
        unfolding st seq_step_eq a_def [symmetric] j_def [symmetric]
        using nz jr True by simp
      have lv: "last vals = arr ! j" using inv(2) by (simp add: vals_def j_def last_map)
      have "\<forall>x \<in> set vals. x < a"
        using sorted_le_last [OF inv(4)] lv True by fastforce
      then have so: "sorted_wrt (<) (map ((!) arr) (result @ [i]))"
        using inv(4) by (simp add: sorted_wrt_append vals_def a_def)
      have ch: "p_chain arr (p[i := j]) ((result @ [i]) ! k) k" if "k < length (result @ [i])" for k
      proof (cases "k < length result")
        case True
        then have "result ! k < i" using inv(3) by simp
        then show ?thesis using True inv(5) by (simp add: nth_append chain_update)
      next
        case False
        then have k: "k = length result" using that by simp
        obtain m where m: "length result = Suc m" using inv(2) by (cases result) auto
        have "p_chain arr (p[i := j]) j m = p_chain arr p j m" using j(2) by (rule chain_update)
        moreover have "p_chain arr p j m" using inv(5) m j(4) by simp
        moreover have "(result @ [i]) ! k = i" using k by simp
        moreover have "p[i := j] ! i = j" using assms(3) inv(1) by simp
        ultimately show ?thesis
          using k m j(2,3) True by (simp add: a_def)
      qed
      have "tails_ok arr (Suc i) (vals @ [arr ! i])"
        using inv(2,4,6) True lv by (intro tails_append) (simp_all add: vals_def a_def)
      then show ?thesis
        using inv(1,2) keep ci so ch by (simp add: s seq_inv_def vals_def)
    next
      case False
      define u where "u = bsearch arr result a 0 (length result - 1)"
      have "a \<le> arr ! (result ! (length result - 1))" using False j(4) by simp
      then have u: "u \<le> length result - 1" "\<forall>k<u. arr ! (result ! k) < a" "a \<le> arr ! (result ! u)"
        using bsearch_spec [of arr result 0 "length result - 1" a] inv(2,4) range
        by (simp_all add: u_def vals_def)
      have ul: "u < length result" using u(1) inv(2) by (cases result) auto
      then have "result ! u < length arr" using range by simp
      then have ur: "js_less (Some a) (nth_opt arr (result ! u)) = (a < arr ! (result ! u))"
        by (simp add: nth_opt_def js_less_def)
      have vu: "\<forall>k<u. vals ! k < a" "a \<le> vals ! u" "u < length vals"
        using u ul by (simp_all add: vals_def)
      have tl: "tails_ok arr (Suc i) (vals[u := arr ! i])"
        using inv(4,6) vu by (intro tails_replace) (simp_all add: a_def)
      show ?thesis
      proof (cases "a < arr ! (result ! u)")
        case lt: True
        define p' where "p' = (if 0 < u then p[i := result ! (u - 1)] else p)"
        have s: "seq_step arr st i = (p', result[u := i])"
          unfolding st seq_step_eq a_def [symmetric] j_def [symmetric] u_def [symmetric]
          using nz jr False ur lt by (simp add: p'_def)
        have mem: "\<forall>x \<in> set (result[u := i]). x < Suc i \<and> cand arr x"
          using keep ci by (auto dest!: set_update_subset_insert [THEN subsetD])
        have mv: "map ((!) arr) (result[u := i]) = vals[u := a]"
          by (simp add: vals_def a_def map_update)
        have so: "sorted_wrt (<) (vals[u := a])"
          using inv(4) vu by (intro sorted_update) simp_all
        have ch: "p_chain arr p' (result[u := i] ! k) k" if "k < length result" for k
        proof (cases "k = u")
          case ne: False
          then have "result ! k < i" using inv(3) that by simp
          then have "p_chain arr p' (result ! k) k = p_chain arr p (result ! k) k"
            by (simp add: p'_def chain_update)
          then show ?thesis using ne inv(5) that by simp
        next
          case True
          show ?thesis
          proof (cases u)
            case 0
            then show ?thesis using True by simp
          next
            case (Suc m)
            then have m: "m < length result" "m < u" using ul by simp_all
            have pe: "p' = p[i := result ! m]" using Suc by (simp add: p'_def)
            have ri: "result ! m < i" "cand arr (result ! m)" using inv(3) m(1) by simp_all
            have "p_chain arr p' (result ! m) m = p_chain arr p (result ! m) m"
              using ri(1) by (simp add: pe chain_update)
            moreover have "p_chain arr p (result ! m) m" using inv(5) m(1) by simp
            moreover have "arr ! (result ! m) < arr ! i" using u(2) m(2) by (simp add: a_def)
            moreover have "result[u := i] ! k = i" using True ul by simp
            moreover have "p' ! i = result ! m" using assms(3) inv(1) by (simp add: pe)
            ultimately show ?thesis
              using True Suc ri by simp
          qed
        qed
        have lp: "length p' = length arr" using inv(1) by (simp add: p'_def)
        show ?thesis
          using lp inv(2) mem so ch tl by (simp add: s seq_inv_def mv a_def)
      next
        case ge: False
        then have e: "vals ! u = a" using vu(2) ul by (simp add: vals_def)
        have s: "seq_step arr st i = (p, result)"
          unfolding st seq_step_eq a_def [symmetric] j_def [symmetric] u_def [symmetric]
          using nz jr False ur ge by simp
        have "vals[u := arr ! i] = vals" using e by (simp add: a_def [symmetric] list_update_same_conv vu(3))
        then have "tails_ok arr (Suc i) vals" using tl by simp
        then show ?thesis using inv keep by (simp add: s seq_inv_def vals_def)
      qed
    qed
  qed
qed


lemma seq_step_0:
  assumes "arr \<noteq> []"
  shows "seq_step arr (arr, [0]) 0 = (arr, [0])"
proof -
  have b: "bsearch arr [0] (arr ! 0) 0 0 = 0" by (subst bsearch.simps) simp
  show ?thesis using assms by (simp add: seq_step_eq b nth_opt_def js_less_def)
qed

lemma seq_inv_init:
  assumes "arr \<noteq> []"
  shows "seq_inv arr 1 (arr, [0])"
proof -
  have "tails_ok arr 1 [arr ! 0]"
    unfolding tails_ok_def
  proof (intro allI impI)
    fix "is"
    assume a: "is \<noteq> [] \<and> increasing arr is \<and> (\<forall>x \<in> set is. x < 1 \<and> cand arr x)"
    then have "distinct is" unfolding increasing_def
      by (simp add: strict_sorted_iff [symmetric] sorted_wrt_iff_nth_less distinct_conv_nth)
        (metis less_irrefl_nat linorder_neqE_nat)
    moreover have "set is \<subseteq> {0}" using a by auto
    ultimately have "length is \<le> 1"
      by (metis card_mono distinct_card finite.emptyI finite.insertI card.empty card.insert
          empty_iff One_nat_def)
    moreover have "last is = 0" using a by (metis last_in_set less_one)
    ultimately show "length is \<le> length [arr ! 0] \<and> [arr ! 0] ! (length is - 1) \<le> arr ! last is"
      by simp
  qed
  then show ?thesis using assms by (simp add: seq_inv_def cand_def)
qed

lemma seq_loop_inv:
  assumes "arr \<noteq> []" "n < length arr"
  shows "seq_inv arr (Suc n) (foldl (seq_step arr) (arr, [0]) [0..<Suc n])"
  using assms(2)
proof (induction n)
  case 0
  then show ?case using seq_step_0 [OF assms(1)] seq_inv_init [OF assms(1)] by simp
next
  case (Suc n)
  then have "seq_inv arr (Suc n) (foldl (seq_step arr) (arr, [0]) [0..<Suc n])" by simp
  from seq_step_inv [OF this _ Suc.prems] show ?case by simp
qed


subsection \<open>The walk back along \<open>p\<close>\<close>

lemma chain_list_props:
  assumes "p_chain arr p x k" "x < length arr" "cand arr x"
  shows "increasing arr (chain_list p x k) \<and> length (chain_list p x k) = Suc k \<and>
         (\<forall>y \<in> set (chain_list p x k). cand arr y \<and> y \<le> x \<and> arr ! y \<le> arr ! x)"
  using assms
proof (induction k arbitrary: x)
  case 0
  then show ?case by (simp add: increasing_def)
next
  case (Suc k)
  then have c: "p ! x < x" "arr ! (p ! x) < arr ! x" "cand arr (p ! x)" "p_chain arr p (p ! x) k"
    by simp_all
  have "p ! x < length arr" using c(1) Suc.prems(2) by simp
  from Suc.IH [OF c(4) this c(3)]
  have ih: "increasing arr (chain_list p (p ! x) k)" "length (chain_list p (p ! x) k) = Suc k"
    "\<forall>y \<in> set (chain_list p (p ! x) k). cand arr y \<and> y \<le> p ! x \<and> arr ! y \<le> arr ! (p ! x)"
    by simp_all
  have "increasing arr (chain_list p (p ! x) k @ [x])"
    using ih(1,3) c(1,2) Suc.prems(2) unfolding increasing_def
    by (auto simp: sorted_wrt_append)
  moreover have "\<forall>y \<in> set (chain_list p (p ! x) k @ [x]). cand arr y \<and> y \<le> x \<and> arr ! y \<le> arr ! x"
    using ih(3) c(1,2) Suc.prems(3) by auto
  ultimately show ?case using ih(2) by simp
qed

lemma drop_update_here:
  assumes "n < length xs"
  shows "drop n (xs[n := y]) = y # drop (Suc n) xs"
  using assms by (simp add: drop_update_swap Cons_nth_drop_Suc [symmetric])

lemma backtrack_chain:
  assumes "p_chain arr p x k" "x < length arr" "length p = length arr" "k < length result"
  shows "backtrack p result (Suc k) (Some x) = map Some (chain_list p x k) @ drop (Suc k) result"
  using assms(1,2,4)
proof (induction k arbitrary: x result)
  case 0
  then show ?case using drop_update_here [of 0 result "Some x"] by simp
next
  case (Suc k)
  then have c: "p ! x < x" "p_chain arr p (p ! x) k" by simp_all
  have r: "nth_opt p x = Some (p ! x)" using Suc.prems(2) assms(3) by (simp add: nth_opt_def)
  have "backtrack p result (Suc (Suc k)) (Some x) =
        backtrack p (result[Suc k := Some x]) (Suc k) (Some (p ! x))"
    by (simp add: r)
  also have "\<dots> = map Some (chain_list p (p ! x) k) @ drop (Suc k) (result[Suc k := Some x])"
    using c(1) Suc.prems(2,3) by (intro Suc.IH [OF c(2)]) simp_all
  also have "drop (Suc k) (result[Suc k := Some x]) = Some x # drop (Suc (Suc k)) result"
    using Suc.prems(3) by (rule drop_update_here)
  finally show ?case by simp
qed

text \<open>
  The result of \<open>getSequence\<close> for an array that is not empty: an increasing list of
  indices, each \<open>0\<close> or the index of an entry that is not zero, and no such list is
  longer.
\<close>

lemma getSequence_longest:
  assumes "arr \<noteq> []"
  shows "\<exists>r. getSequence arr = map Some r \<and> r \<noteq> [] \<and> increasing arr r \<and>
           (\<forall>x \<in> set r. cand arr x) \<and>
           (\<forall>is. increasing arr is \<and> (\<forall>x \<in> set is. cand arr x) \<longrightarrow> length is \<le> length r)"
proof -
  obtain n where n: "length arr = Suc n" using assms by (cases arr) auto
  obtain p result where st: "foldl (seq_step arr) (arr, [0]) [0..<length arr] = (p, result)"
    by (cases "foldl (seq_step arr) (arr, [0]) [0..<length arr]")
  have "seq_inv arr (length arr) (p, result)"
    using seq_loop_inv [OF assms, of n] n st by simp
  then have inv: "length p = length arr" "result \<noteq> []"
    "\<forall>x \<in> set result. x < length arr \<and> cand arr x"
    "\<forall>k < length result. p_chain arr p (result ! k) k"
    "tails_ok arr (length arr) (map ((!) arr) result)"
    by (simp_all add: seq_inv_def)
  obtain k where k: "length result = Suc k" using inv(2) by (cases result) auto
  define x where "x = last result"
  have x: "x = result ! k" "x \<in> set result" using inv(2) k by (simp_all add: x_def last_conv_nth)
  then have xp: "p_chain arr p x k" "x < length arr" "cand arr x" using inv(3,4) k by simp_all
  define r where "r = chain_list p x k"
  note pr = chain_list_props [OF xp, folded r_def]
  have "getSequence arr = backtrack p (map Some result) (Suc k) (Some x)"
    by (simp add: getSequence_def st k x_def)
  also have "\<dots> = map Some r"
    using backtrack_chain [OF xp(1,2) inv(1), of "map Some result"] k by (simp add: r_def)
  finally have g: "getSequence arr = map Some r" .
  have "length is \<le> length r" if "increasing arr is" "\<forall>x \<in> set is. cand arr x" for "is"
  proof (cases "is = []")
    case True
    then show ?thesis by simp
  next
    case False
    have "\<forall>x \<in> set is. x < length arr \<and> cand arr x"
      using that unfolding increasing_def by blast
    then have "length is \<le> length (map ((!) arr) result)"
      using inv(5) False that(1) unfolding tails_ok_def by blast
    then show ?thesis using pr k by simp
  qed
  moreover have "r \<noteq> []" using pr by auto
  ultimately show ?thesis using g pr by blast
qed

lemma getSequence_empty: "getSequence [] = [Some 0]"
  by (simp add: getSequence_def nth_opt_def)


subsection \<open>The entries that are not zero\<close>

lemma increasing_Cons_0:
  assumes "increasing arr is" "\<forall>x \<in> set is. arr ! x \<noteq> 0" "arr \<noteq> []" "arr ! 0 = 0"
  shows "increasing arr (0 # is)" "\<forall>x \<in> set (0 # is). cand arr x"
proof -
  have "\<forall>x \<in> set is. 0 < x" using assms(2,4) by (metis gr0I)
  then show "increasing arr (0 # is)"
    using assms unfolding increasing_def by auto
  show "\<forall>x \<in> set (0 # is). cand arr x" using assms(2) by (simp add: cand_def)
qed

lemma getSequence_nonzero:
  assumes "arr \<noteq> []"
  shows "\<exists>r. getSequence arr = map Some r \<and> r \<noteq> [] \<and> increasing arr r \<and>
           (if arr ! 0 = 0 then hd r = 0 \<and> nonzero_lis arr (tl r) else nonzero_lis arr r)"
proof -
  from getSequence_longest [OF assms] obtain r where r: "getSequence arr = map Some r" "r \<noteq> []"
    "increasing arr r" "\<forall>x \<in> set r. cand arr x"
    "\<forall>is. increasing arr is \<and> (\<forall>x \<in> set is. cand arr x) \<longrightarrow> length is \<le> length r"
    by blast
  show ?thesis
  proof (cases "arr ! 0 = 0")
    case False
    then have "cand arr x \<longleftrightarrow> arr ! x \<noteq> 0" for x by (cases "x = 0") (simp_all add: cand_def)
    then have "nonzero_lis arr r" using r(3,4,5) by (simp add: nonzero_lis_def)
    then show ?thesis using r(1,2,3) False by auto
  next
    case True
    obtain x0 r' where c: "r = x0 # r'" using r(2) by (cases r) auto
    have inc: "increasing arr r'" "\<forall>y \<in> set r'. x0 < y \<and> arr ! x0 < arr ! y"
      using r(3) unfolding c increasing_def by auto
    have nz: "\<forall>y \<in> set r'. arr ! y \<noteq> 0" using inc(2) by auto
    have x0: "x0 = 0"
    proof (rule ccontr)
      assume "x0 \<noteq> 0"
      then have "arr ! x0 \<noteq> 0" using r(4) by (simp add: c cand_def)
      then have "\<forall>x \<in> set r. arr ! x \<noteq> 0" using nz by (simp add: c)
      from increasing_Cons_0 [OF r(3) this assms True] r(5)
      have "length (0 # r) \<le> length r" by blast
      then show False by simp
    qed
    have "length is \<le> length r'" if "increasing arr is" "\<forall>x \<in> set is. arr ! x \<noteq> 0" for "is"
    proof -
      from increasing_Cons_0 [OF that assms True] r(5)
      have "length (0 # is) \<le> length r" by blast
      then show ?thesis by (simp add: c)
    qed
    then have "nonzero_lis arr r'" using inc(1) nz by (simp add: nonzero_lis_def)
    then have "getSequence arr = map Some r \<and> r \<noteq> [] \<and> increasing arr r \<and>
           (if arr ! 0 = 0 then hd r = 0 \<and> nonzero_lis arr (tl r) else nonzero_lis arr r)"
      using r(1,2,3) True x0 by (simp add: c)
    then show ?thesis by blast
  qed
qed


subsection \<open>The moves\<close>

lemma place_moves:
  assumes "sorted_wrt (<) r" "\<forall>j < length r. 0 < j \<longrightarrow> m ! (r ! j) \<noteq> 0"
    and "q \<le> length r" "\<forall>j<q. r ! j < k \<or> m ! (r ! j) = 0" "\<forall>j. q \<le> j \<and> j < length r \<longrightarrow> k \<le> r ! j"
  shows "filter is_move (place m True (map Some r) l2 s2 k (int q - 1)) =
         map (move_of l2 s2) (filter (\<lambda>i. m ! i \<noteq> 0 \<and> i \<notin> set r) (rev [0..<k]))"
  using assms(3-5)
proof (induction k arbitrary: q)
  case 0
  then show ?case by simp
next
  case (Suc i)
  show ?case
  proof (cases "m ! i = 0")
    case True
    have "\<forall>j<q. r ! j < i \<or> m ! (r ! j) = 0"
      using Suc.prems(2) True by (metis less_SucE)
    moreover have "\<forall>j. q \<le> j \<and> j < length r \<longrightarrow> i \<le> r ! j"
      using Suc.prems(3) by (meson Suc_leD)
    ultimately show ?thesis
      using Suc.IH [OF Suc.prems(1)] True by (simp add: Let_def)
  next
    case nz: False
    show ?thesis
    proof (cases "q = 0 \<or> r ! (q - 1) \<noteq> i")
      case False
      then have q: "0 < q" "r ! (q - 1) = i" by simp_all
      then have ql: "q - 1 < length r" using Suc.prems(1) by simp
      then have mem: "i \<in> set r" using q(2) by (metis nth_mem)
      have s: "\<not> (int q - 1 < 0 \<or> Some i \<noteq> map Some r ! nat (int q - 1))"
        using q ql by (simp add: nat_diff_distrib')
      have a: "\<forall>j<q - 1. r ! j < i \<or> m ! (r ! j) = 0"
        using sorted_wrt_nth_less [OF assms(1) _ ql] q(2) by auto
      have b: "\<forall>j. q - 1 \<le> j \<and> j < length r \<longrightarrow> i \<le> r ! j"
      proof (intro allI impI)
        fix j assume j: "q - 1 \<le> j \<and> j < length r"
        show "i \<le> r ! j"
        proof (cases "j = q - 1")
          case True
          then show ?thesis using q(2) by simp
        next
          case False
          then have "q \<le> j" using j by arith
          then show ?thesis using Suc.prems(3) j by (meson Suc_leD)
        qed
      qed
      have "q - 1 \<le> length r" using ql by simp
      from Suc.IH [OF this a b] have
        "filter is_move (place m True (map Some r) l2 s2 i (int (q - 1) - 1)) =
           map (move_of l2 s2) (filter (\<lambda>i. m ! i \<noteq> 0 \<and> i \<notin> set r) (rev [0..<i]))" .
      moreover have "int (q - 1) = int q - 1" using q(1) by simp
      ultimately show ?thesis using nz s mem by (simp add: Let_def)
    next
      case True
      have s: "int q - 1 < 0 \<or> Some i \<noteq> map Some r ! nat (int q - 1)"
      proof (cases "q = 0")
        case True
        then show ?thesis by simp
      next
        case False
        then have "r ! (q - 1) \<noteq> i" "q - 1 < length r" using True Suc.prems(1) by simp_all
        then show ?thesis using False by (simp add: nat_diff_distrib')
      qed
      have nm: "i \<notin> set r"
      proof
        assume "i \<in> set r"
        then obtain j where j: "j < length r" "r ! j = i" by (auto simp: in_set_conv_nth)
        have "j < q"
        proof (rule ccontr)
          assume "\<not> j < q"
          then have "Suc i \<le> r ! j" using Suc.prems(3) j(1) by simp
          then show False using j(2) by simp
        qed
        then have q: "0 < q" "q - 1 < length r" "r ! (q - 1) \<noteq> i" using True Suc.prems(1) by auto
        then have "j < q - 1" using \<open>j < q\<close> j(2) by (cases "j = q - 1") auto
        then have "i < r ! (q - 1)" using sorted_wrt_nth_less [OF assms(1) _ q(2)] j(2) by auto
        moreover have "r ! (q - 1) < Suc i \<or> m ! (r ! (q - 1)) = 0" using Suc.prems(2) q(1) by simp
        ultimately have "m ! (r ! (q - 1)) = 0" by arith
        then show False using assms(2) q(2) \<open>j < q - 1\<close> by auto
      qed
      have a: "\<forall>j<q. r ! j < i \<or> m ! (r ! j) = 0"
      proof (intro allI impI)
        fix j assume "j < q"
        then have "r ! j \<in> set r" using Suc.prems(1) by simp
        then have "r ! j \<noteq> i" using nm by auto
        then show "r ! j < i \<or> m ! (r ! j) = 0" using Suc.prems(2) \<open>j < q\<close> by (metis less_SucE)
      qed
      have b: "\<forall>j. q \<le> j \<and> j < length r \<longrightarrow> i \<le> r ! j"
        using Suc.prems(3) by (meson Suc_leD)
      show ?thesis
        using Suc.IH [OF Suc.prems(1) a b] nz s nm by (simp add: Let_def move_of_def)
    qed
  qed
qed


lemma match_old_keeps:
  "length (newIndexToOldIndexMap (match_old oldChildren newChildren s2 e2 km st i)) =
     length (newIndexToOldIndexMap st) \<and>
   filter is_move (ops (match_old oldChildren newChildren s2 e2 km st i)) = filter is_move (ops st)"
  by (simp add: match_old_def Let_def split: option.splits)

lemma match_loop_keeps:
  "length (newIndexToOldIndexMap (foldl (match_old oldChildren newChildren s2 e2 km) st is)) =
     length (newIndexToOldIndexMap st) \<and>
   filter is_move (ops (foldl (match_old oldChildren newChildren s2 e2 km) st is)) =
     filter is_move (ops st)"
proof (induction "is" arbitrary: st)
  case Nil
  then show ?case by simp
next
  case (Cons i "is")
  show ?case
    using Cons [of "match_old oldChildren newChildren s2 e2 km st i"]
      match_old_keeps [of oldChildren newChildren s2 e2 km st i]
    by simp
qed

lemma match_phase_keeps:
  "length (newIndexToOldIndexMap (match_phase oldChildren newChildren s e1 e2)) = e2 - s + 1"
  "filter is_move (ops (match_phase oldChildren newChildren s e1 e2)) = []"
  using match_loop_keeps [of oldChildren newChildren s e2 "keyToNewIndexMap newChildren s e2"
      "\<lparr>patched = 0, moved = False, maxNewIndexSoFar = 0,
        newIndexToOldIndexMap = replicate (e2 - s + 1) 0, ops = []\<rparr>" "[s..<e1 + 1]"]
  by (simp_all add: match_phase_def)

lemma place_not_moved:
  "filter is_move (place m False sq l2 s2 k sli) = []"
  by (induction k) (simp_all add: Let_def)

lemma getSequence_moves:
  assumes "arr \<noteq> []"
  shows "\<exists>r. getSequence arr = map Some r \<and> increasing arr r \<and>
           (if arr ! 0 = 0 then hd r = 0 \<and> nonzero_lis arr (tl r) else nonzero_lis arr r) \<and>
           filter is_move (place arr True (getSequence arr) l2 s2 (length arr)
                             (int (length (getSequence arr)) - 1)) =
             map (move_of l2 s2) (filter (\<lambda>i. arr ! i \<noteq> 0 \<and> i \<notin> set r) (rev [0..<length arr]))"
proof -
  from getSequence_nonzero [OF assms] obtain r where r: "getSequence arr = map Some r" "r \<noteq> []"
    "increasing arr r"
    "if arr ! 0 = 0 then hd r = 0 \<and> nonzero_lis arr (tl r) else nonzero_lis arr r"
    by blast
  have s: "sorted_wrt (<) r" "\<forall>x \<in> set r. x < length arr"
    using r(3) by (simp_all add: increasing_def)
  have nz: "\<forall>j < length r. 0 < j \<longrightarrow> arr ! (r ! j) \<noteq> 0"
  proof (intro allI impI)
    fix j assume j: "j < length r" "0 < j"
    show "arr ! (r ! j) \<noteq> 0"
    proof (cases "arr ! 0 = 0")
      case True
      then have "\<forall>x \<in> set (tl r). arr ! x \<noteq> 0" using r(4) by (simp add: nonzero_lis_def)
      moreover have "r ! j \<in> set (tl r)"
        using j r(2) by (cases r) (auto simp: nth_Cons')
      ultimately show ?thesis by simp
    next
      case False
      then show ?thesis using r(4) j(1) by (simp add: nonzero_lis_def)
    qed
  qed
  have "filter is_move (place arr True (map Some r) l2 s2 (length arr) (int (length r) - 1)) =
         map (move_of l2 s2) (filter (\<lambda>i. arr ! i \<noteq> 0 \<and> i \<notin> set r) (rev [0..<length arr]))"
    using s(2) by (intro place_moves [OF s(1) nz]) simp_all
  then show ?thesis using r by (auto simp: r(1))
qed


subsection \<open>Keyed reconciliation\<close>

text \<open>
  C3, amended. For an array that is not empty, \<open>getSequence\<close> returns an increasing list
  of indices. If the first entry is not zero, it is a longest increasing subsequence
  of the entries that are not zero; if the first entry is zero, it is the index \<open>0\<close>
  followed by such a subsequence. In the part of \<open>patchKeyedChildren\<close> between the common
  start and end, if a move is needed, the new children moved are those that were
  matched and are not in the list; if none is needed, there is no move. For the old
  children \<open>A B C D\<close> and the new ones \<open>A C B D\<close> there is one move, of \<open>C\<close> before \<open>B\<close>.
\<close>

theorem keyed_children_moves:
  fixes oldChildren newChildren :: "vnode list" and s e1 e2 :: nat
  defines "st \<equiv> match_phase oldChildren newChildren s e1 e2"
  defines "m \<equiv> newIndexToOldIndexMap st"
  shows "(arr \<noteq> [] \<longrightarrow>
      (\<exists>r. getSequence arr = map Some r \<and> increasing arr r \<and>
         (if arr ! 0 = 0 then hd r = 0 \<and> nonzero_lis arr (tl r) else nonzero_lis arr r))) \<and>
    (moved st \<longrightarrow>
      (\<exists>r. getSequence m = map Some r \<and> increasing m r \<and>
         (if m ! 0 = 0 then hd r = 0 \<and> nonzero_lis m (tl r) else nonzero_lis m r) \<and>
         filter is_move (patch_between oldChildren newChildren s e1 e2) =
           map (move_of (length newChildren) s)
             (filter (\<lambda>i. m ! i \<noteq> 0 \<and> i \<notin> set r) (rev [0..<length m])))) \<and>
    (\<not> moved st \<longrightarrow> filter is_move (patch_between oldChildren newChildren s e1 e2) = []) \<and>
    filter is_move (patchKeyedChildren (keyed ''ABCD'') (keyed ''ACBD'')) = [Move 1 (Some 2)]"
proof (intro conjI impI)
  show "\<exists>r. getSequence arr = map Some r \<and> increasing arr r \<and>
         (if arr ! 0 = 0 then hd r = 0 \<and> nonzero_lis arr (tl r) else nonzero_lis arr r)"
    if "arr \<noteq> []"
    using getSequence_nonzero [OF that] by blast
  have l: "length m = e2 - s + 1" "filter is_move (ops st) = []"
    by (simp_all add: m_def st_def match_phase_keeps)
  then have ne: "m \<noteq> []" by auto
  have pb: "filter is_move (patch_between oldChildren newChildren s e1 e2) =
      filter is_move (place m (moved st) (if moved st then getSequence m else [])
        (length newChildren) s (length m)
        (int (length (if moved st then getSequence m else [])) - 1))"
    unfolding patch_between_def Let_def st_def [symmetric] m_def [symmetric] filter_append l
    by (simp only: append_Nil)
  show "\<exists>r. getSequence m = map Some r \<and> increasing m r \<and>
         (if m ! 0 = 0 then hd r = 0 \<and> nonzero_lis m (tl r) else nonzero_lis m r) \<and>
         filter is_move (patch_between oldChildren newChildren s e1 e2) =
           map (move_of (length newChildren) s)
             (filter (\<lambda>i. m ! i \<noteq> 0 \<and> i \<notin> set r) (rev [0..<length m]))"
    if "moved st"
  proof -
    have "filter is_move (patch_between oldChildren newChildren s e1 e2) =
      filter is_move (place m True (getSequence m) (length newChildren) s (length m)
        (int (length (getSequence m)) - 1))"
      unfolding pb using that by (simp only: if_True)
    then show ?thesis
      using getSequence_moves [OF ne, of "length newChildren" s] by (simp only:)
  qed
  show "filter is_move (patch_between oldChildren newChildren s e1 e2) = []"
    if "\<not> moved st"
    unfolding pb using that by (simp only: if_False place_not_moved)
  show "filter is_move (patchKeyedChildren (keyed ''ABCD'') (keyed ''ACBD'')) = [Move 1 (Some 2)]"
    by code_simp
qed

theorem keyed_children_moves_witness:
  "getSequence [3, 2] = [Some 1] \<and> nonzero_lis [3, 2] [1] \<and>
   moved (match_phase (keyed ''ABCD'') (keyed ''ACBD'') 1 2 2) \<and>
   newIndexToOldIndexMap (match_phase (keyed ''ABCD'') (keyed ''ACBD'') 1 2 2) = [3, 2] \<and>
   filter is_move (patch_between (keyed ''ABCD'') (keyed ''ACBD'') 1 2 2) = [Move 1 (Some 2)] \<and>
   \<not> moved (match_phase (keyed ''AB'') (keyed ''CD'') 0 1 1) \<and>
   filter is_move (patch_between (keyed ''AB'') (keyed ''CD'') 0 1 1) = []"
proof -
  have g: "getSequence [3, 2] = [Some 1]" by code_simp
  have mv: "moved (match_phase (keyed ''ABCD'') (keyed ''ACBD'') 1 2 2)" by code_simp
  have m: "newIndexToOldIndexMap (match_phase (keyed ''ABCD'') (keyed ''ACBD'') 1 2 2) = [3, 2]"
    by code_simp
  have nm: "\<not> moved (match_phase (keyed ''AB'') (keyed ''CD'') 0 1 1)" by code_simp
  have l: "length (keyed ''ACBD'') = 4" by (simp add: keyed_def)
  note t = keyed_children_moves [of "[3, 2]" "keyed ''ABCD''" "keyed ''ACBD''" 1 2 2]
  note t2 = t [THEN conjunct2, THEN conjunct1, rule_format, OF mv, unfolded m]
  from t2 obtain r where r: "getSequence [3, 2] = map Some r"
    "if [3, 2 :: nat] ! 0 = 0 then hd r = 0 \<and> nonzero_lis [3, 2] (tl r) else nonzero_lis [3, 2] r"
    "filter is_move (patch_between (keyed ''ABCD'') (keyed ''ACBD'') 1 2 2) =
       map (move_of (length (keyed ''ACBD'')) 1)
         (filter (\<lambda>i. [3, 2 :: nat] ! i \<noteq> 0 \<and> i \<notin> set r) (rev [0..<length [3, 2 :: nat]]))"
    by blast
  have r1: "r = [1]" using r(1) g by (cases r) auto
  have r2: "nonzero_lis [3, 2] r" using r(2) by simp
  have u: "rev [0..<length [3, 2 :: nat]] = [1, 0 :: nat]" by (simp add: upt_rec)
  have p: "filter is_move (patch_between (keyed ''ABCD'') (keyed ''ACBD'') 1 2 2) =
      [Move 1 (Some 2)]"
    unfolding r(3) r1 u l by (simp add: move_of_def)
  have q: "filter is_move (patch_between (keyed ''AB'') (keyed ''CD'') 0 1 1) = []"
    using keyed_children_moves [of "[3, 2]" "keyed ''AB''" "keyed ''CD''" 0 1 1] nm by simp
  show ?thesis using g r2 r1 mv m p nm q by simp
qed

text \<open>
  C3 as the specification states it fails when the first of the new children between
  is not matched: for the old children \<open>B C\<close> and the new ones \<open>X C B\<close> the array is
  \<open>[0, 2, 1]\<close>, and the list returned holds the index \<open>0\<close>, whose entry is zero.
\<close>

theorem getSequence_first_index_counterexample:
  "moved (match_phase (keyed ''BC'') (keyed ''XCB'') 0 1 2) \<and>
   newIndexToOldIndexMap (match_phase (keyed ''BC'') (keyed ''XCB'') 0 1 2) = [0, 2, 1] \<and>
   getSequence [0, 2, 1] = [Some 0, Some 2] \<and> [0, 2, 1 :: nat] ! 0 = 0"
  by code_simp

end
